theory Spec2Isabelle
  imports Main "HOL-Library.Word"
begin

unbundle bit_operations_syntax

section \<open>Library functions used by the watcher\<close>

text \<open>
  Go strings and byte slices are sequences of bytes; \<^typ>\<open>string\<close> (a list of 8-bit
  characters) is used for both, so the conversion \<^verbatim>\<open>[]byte(s)\<close> is the identity.
\<close>

text \<open>\<^verbatim>\<open>strings.HasPrefix(s, prefix)\<close>.\<close>

definition HasPrefix :: "string \<Rightarrow> string \<Rightarrow> bool" where
  "HasPrefix s p = (length p \<le> length s \<and> take (length p) s = p)"

text \<open>\<^verbatim>\<open>strings.Join(elems, sep)\<close>.\<close>

fun Join :: "string list \<Rightarrow> string \<Rightarrow> string" where
  "Join [] sep = []"
| "Join [x] sep = x"
| "Join (x # y # ys) sep = x @ sep @ Join (y # ys) sep"

text \<open>
  \<^verbatim>\<open>strings.Fields(s)\<close> splits around runs of white space as \<^verbatim>\<open>unicode.IsSpace\<close>
  defines it. On the UTF-8 bytes of the string the white-space runes are the six ASCII
  ones, U+0085 and U+00A0 (two bytes), and U+1680, U+2000..U+200A, U+2028, U+2029,
  U+202F, U+205F and U+3000 (three bytes). \<open>space_width s\<close> is the number of bytes of
  the white-space rune that \<open>s\<close> starts with, and 0 when it starts with none.
\<close>

definition asciiSpace :: "char \<Rightarrow> bool" where
  "asciiSpace c = (c = CHR 0x09 \<or> c = CHR 0x0A \<or> c = CHR 0x0B \<or> c = CHR 0x0C
                   \<or> c = CHR 0x0D \<or> c = CHR 0x20)"

fun space_width :: "string \<Rightarrow> nat" where
  "space_width [] = 0"
| "space_width [c] = (if asciiSpace c then 1 else 0)"
| "space_width [c, d] =
     (if asciiSpace c then 1
      else if c = CHR 0xC2 \<and> (d = CHR 0x85 \<or> d = CHR 0xA0) then 2 else 0)"
| "space_width (c # d # e # s) =
     (if asciiSpace c then 1
      else if c = CHR 0xC2 \<and> (d = CHR 0x85 \<or> d = CHR 0xA0) then 2
      else if c = CHR 0xE1 \<and> d = CHR 0x9A \<and> e = CHR 0x80 then 3
      else if c = CHR 0xE2 \<and> d = CHR 0x80 \<and>
              (of_char e \<in> {0x80 .. (0x8A :: nat)} \<or> e = CHR 0xA8 \<or> e = CHR 0xA9 \<or> e = CHR 0xAF)
        then 3
      else if c = CHR 0xE2 \<and> d = CHR 0x81 \<and> e = CHR 0x9F then 3
      else if c = CHR 0xE3 \<and> d = CHR 0x80 \<and> e = CHR 0x80 then 3
      else 0)"

text \<open>
  \<open>fields_from tok s\<close> scans \<open>s\<close> with the bytes of the field begun so far in \<open>tok\<close>:
  a white-space rune closes a non-empty field, any other byte extends it.
\<close>

function fields_from :: "string \<Rightarrow> string \<Rightarrow> string list" where
  "fields_from tok [] = (if tok = [] then [] else [tok])"
| "fields_from tok (c # s) =
     (if 0 < space_width (c # s)
      then (if tok = [] then [] else [tok]) @ fields_from [] (drop (space_width (c # s) - 1) s)
      else fields_from (tok @ [c]) s)"
  by pat_completeness auto
termination
  by (relation "measure (\<lambda>(tok, s). length s)") auto

definition Fields :: "string \<Rightarrow> string list" where
  "Fields s = fields_from [] s"

text \<open>
  \<^verbatim>\<open>fmt.Sprintf("%d", n)\<close>: the decimal digits of \<open>n\<close>, after a minus sign when it is
  negative.
\<close>

definition digit_char :: "nat \<Rightarrow> char" where
  "digit_char d = ''0123456789'' ! d"

fun digits :: "nat \<Rightarrow> string" where
  "digits n = (if n < 10 then [digit_char n] else digits (n div 10) @ [digit_char (n mod 10)])"

definition Sprintf_d :: "int \<Rightarrow> string" where
  "Sprintf_d n = (if n < 0 then CHR ''-'' # digits (nat (- n)) else digits (nat n))"

text \<open>\<^verbatim>\<open>hex.EncodeToString\<close>: two lower-case hexadecimal digits per byte.\<close>

definition hex_char :: "nat \<Rightarrow> char" where
  "hex_char d = ''0123456789abcdef'' ! d"

definition EncodeToString :: "string \<Rightarrow> string" where
  "EncodeToString bs =
     concat (map (\<lambda>b. [hex_char (of_char b div 16), hex_char (of_char b mod 16)]) bs)"

text \<open>
  \<^verbatim>\<open>bufio.Scanner\<close> with its default split function \<^verbatim>\<open>bufio.ScanLines\<close>, on a file
  that is read to its end without an I/O error. \<open>split_lines cur s\<close> cuts \<open>s\<close> at
  every newline, \<open>cur\<close> being the bytes of the line begun so far; a last line without
  a newline is a line when it is not empty. \<^verbatim>\<open>dropCR\<close> removes one trailing carriage
  return from a line. A line (with its carriage return) of \<^verbatim>\<open>MaxScanTokenSize\<close> bytes or
  more does not fit the buffer of the scanner: \<^verbatim>\<open>Scan\<close> returns false there and
  \<^verbatim>\<open>Err\<close> is \<^verbatim>\<open>ErrTooLong\<close>.
\<close>

definition dropCR :: "string \<Rightarrow> string" where
  "dropCR data = (if data \<noteq> [] \<and> last data = CHR 0x0D then butlast data else data)"

fun split_lines :: "string \<Rightarrow> string \<Rightarrow> string list" where
  "split_lines cur [] = (if cur = [] then [] else [cur])"
| "split_lines cur (c # s) =
     (if c = CHR 0x0A then cur # split_lines [] s else split_lines (cur @ [c]) s)"

definition MaxScanTokenSize :: nat where
  "MaxScanTokenSize = 64 * 1024"

section \<open>The routing table and its chunks\<close>

text \<open>
  \<^verbatim>\<open>type Chunk struct\<close>. The line numbers are \<^verbatim>\<open>int64\<close> counters of the lines read;
  they are modelled as \<^typ>\<open>int\<close>, which agrees with the code on every input of fewer
  than \<open>2 ^ 63\<close> lines.
\<close>

record Chunk =
  StartLine :: int
  EndLine :: int
  Hash :: string
  Data :: string
  Destination :: string

text \<open>\<^verbatim>\<open>type DataTable struct\<close>, without its lock.\<close>

record DataTable =
  FilePath :: string
  Chunks :: "string \<rightharpoonup> Chunk"

definition NewDataTable :: "string \<Rightarrow> DataTable" where
  "NewDataTable filePath = \<lparr>FilePath = filePath, Chunks = Map.empty\<rparr>"

text \<open>
  \<^verbatim>\<open>hashChunk\<close>: the hexadecimal text of the SHA-256 digest. The digest function
  \<^verbatim>\<open>sha256.Sum256\<close> is a parameter of the model.
\<close>

definition hashChunk :: "(string \<Rightarrow> string) \<Rightarrow> string \<Rightarrow> string" where
  "hashChunk Sum256 data = EncodeToString (Sum256 data)"

text \<open>
  What reading a path gives: \<^verbatim>\<open>os.Open\<close> fails, or it succeeds and the
  \<^verbatim>\<open>bufio.Scanner\<close> yields the given lines in turn before \<^verbatim>\<open>Scan\<close> returns false;
  the flag tells whether \<^verbatim>\<open>scanner.Err()\<close> is then an error (a failed read, or a line
  longer than the scanner accepts).
\<close>

datatype source = OpenFails | Scan "string list" bool

text \<open>What reading gives for a file that opens and has the bytes \<open>content\<close>.\<close>

definition scan_text :: "string \<Rightarrow> source" where
  "scan_text content =
     (let raw = split_lines [] content;
          ok = takeWhile (\<lambda>l. length l < MaxScanTokenSize) raw
      in Scan (map dropCR ok) (length ok < length raw))"

datatype error = OpenError | ReadError | ReloadError error

text \<open>The variables of the loop of \<^verbatim>\<open>LoadDataTable\<close>, with the map \<^verbatim>\<open>rt.Chunks\<close> it writes.\<close>

record scan_state =
  rtChunks :: "string \<rightharpoonup> Chunk"
  currentChunk :: "Chunk option"
  chunkLines :: "string list"
  lineNum :: int
  currentDestination :: string

text \<open>
  The block that saves the chunk being built (lines 72-78 and 104-110 of main.go): it
  returns the new value of \<^verbatim>\<open>rt.Chunks\<close>.
\<close>

definition save_chunk :: "(string \<Rightarrow> string) \<Rightarrow> int \<Rightarrow> scan_state \<Rightarrow> (string \<rightharpoonup> Chunk)" where
  "save_chunk Sum256 endLine st =
     (case currentChunk st of
        None \<Rightarrow> rtChunks st
      | Some c \<Rightarrow>
          if 0 < length (chunkLines st) then
            let chunkData = Join (chunkLines st) [CHR 0x0A];
                c' = c\<lparr>Data := chunkData, Hash := hashChunk Sum256 chunkData, EndLine := endLine\<rparr>
            in (rtChunks st)(Destination c' \<mapsto> c')
          else rtChunks st)"

text \<open>The extraction of the destination from a marker line (lines 81-86).\<close>

definition destination_of :: "string \<Rightarrow> int \<Rightarrow> string" where
  "destination_of line n =
     (let parts = Fields line
      in if 2 \<le> length parts then parts ! 1 else ''unknown_'' @ Sprintf_d n)"

text \<open>One iteration of the loop \<^verbatim>\<open>for scanner.Scan()\<close>.\<close>

definition scan_line :: "(string \<Rightarrow> string) \<Rightarrow> scan_state \<Rightarrow> string \<Rightarrow> scan_state" where
  "scan_line Sum256 st0 line =
     (let st = st0\<lparr>lineNum := lineNum st0 + 1\<rparr>
      in if HasPrefix line ''Destination:'' then
           let saved = save_chunk Sum256 (lineNum st - 1) st;
               dest = destination_of line (lineNum st)
           in st\<lparr>rtChunks := saved,
                 currentDestination := dest,
                 currentChunk := Some \<lparr>StartLine = lineNum st, EndLine = 0, Hash = [], Data = [],
                                        Destination = dest\<rparr>,
                 chunkLines := [line]\<rparr>
         else if currentChunk st \<noteq> None then st\<lparr>chunkLines := chunkLines st @ [line]\<rparr>
         else st)"

definition scan_init :: "(string \<rightharpoonup> Chunk) \<Rightarrow> scan_state" where
  "scan_init m = \<lparr>rtChunks = m, currentChunk = None, chunkLines = [], lineNum = 0,
                   currentDestination = []\<rparr>"

text \<open>
  \<^verbatim>\<open>LoadDataTable\<close>, reading from the file system \<open>fs\<close>. It returns the error (if any)
  and the table as the call leaves it. The message printed on success is not modelled.
\<close>

definition LoadDataTable ::
  "(string \<Rightarrow> string) \<Rightarrow> (string \<Rightarrow> source) \<Rightarrow> DataTable \<Rightarrow> error option \<times> DataTable" where
  "LoadDataTable Sum256 fs rt =
     (case fs (FilePath rt) of
        OpenFails \<Rightarrow> (Some OpenError, rt)
      | Scan ls err \<Rightarrow>
          let st = foldl (scan_line Sum256) (scan_init (Chunks rt)) ls;
              rt' = rt\<lparr>Chunks := save_chunk Sum256 (lineNum st) st\<rparr>
          in if err then (Some ReadError, rt') else (None, rt'))"

section \<open>Detecting changes\<close>

text \<open>
  Go leaves the order of a \<^verbatim>\<open>range\<close> over a map unspecified. Each such loop of
  \<^verbatim>\<open>DetectChanges\<close> takes the sequence of key-value pairs it visits as an argument;
  \<open>ranges m ps\<close> says that \<open>ps\<close> visits every entry of \<open>m\<close> once.
\<close>

definition ranges :: "('k \<rightharpoonup> 'v) \<Rightarrow> ('k \<times> 'v) list \<Rightarrow> bool" where
  "ranges m ps = (distinct (map fst ps) \<and> map_of ps = m)"

text \<open>The loop that copies \<^verbatim>\<open>rt.Chunks\<close> into \<^verbatim>\<open>oldChunks\<close> (lines 124-126).\<close>

fun copy_chunks :: "(string \<times> Chunk) list \<Rightarrow> (string \<rightharpoonup> Chunk) \<Rightarrow> (string \<rightharpoonup> Chunk)" where
  "copy_chunks [] oldChunks = oldChunks"
| "copy_chunks ((k, v) # ps) oldChunks = copy_chunks ps (oldChunks(k \<mapsto> v))"

text \<open>The loop over \<^verbatim>\<open>oldChunks\<close> (lines 142-151).\<close>

fun check_existing :: "(string \<rightharpoonup> Chunk) \<Rightarrow> (string \<times> Chunk) list \<Rightarrow> string list \<Rightarrow> string list" where
  "check_existing newChunks [] changed = changed"
| "check_existing newChunks ((dest, oldChunk) # ps) changed =
     (case newChunks dest of
        None \<Rightarrow> check_existing newChunks ps (changed @ [dest])
      | Some newChunk \<Rightarrow>
          if Hash newChunk \<noteq> Hash oldChunk then check_existing newChunks ps (changed @ [dest])
          else check_existing newChunks ps changed)"

text \<open>The loop over \<^verbatim>\<open>tempRT.Chunks\<close> (lines 154-158).\<close>

fun check_new :: "(string \<rightharpoonup> Chunk) \<Rightarrow> (string \<times> Chunk) list \<Rightarrow> string list \<Rightarrow> string list" where
  "check_new oldChunks [] changed = changed"
| "check_new oldChunks ((dest, newChunk) # ps) changed =
     (if oldChunks dest = None then check_new oldChunks ps (changed @ [dest])
      else check_new oldChunks ps changed)"

text \<open>
  \<^verbatim>\<open>DetectChanges\<close>. The arguments \<open>r1\<close>, \<open>r2\<close> and \<open>r3\<close> are the visiting orders of
  its three loops. It returns the error or the changed destinations, and the table as
  the call leaves it.
\<close>

definition DetectChanges ::
  "(string \<Rightarrow> string) \<Rightarrow> (string \<Rightarrow> source) \<Rightarrow>
   (string \<times> Chunk) list \<Rightarrow> (string \<times> Chunk) list \<Rightarrow> (string \<times> Chunk) list \<Rightarrow>
   DataTable \<Rightarrow> (error + string list) \<times> DataTable" where
  "DetectChanges Sum256 fs r1 r2 r3 rt =
     (let oldChunks = copy_chunks r1 Map.empty
      in case LoadDataTable Sum256 fs (NewDataTable (FilePath rt)) of
           (Some e, tempRT) \<Rightarrow> (Inl (ReloadError e), rt)
         | (None, tempRT) \<Rightarrow>
             let changed = check_existing (Chunks tempRT) r2 [];
                 changed' = check_new oldChunks r3 changed
             in (Inr changed', rt\<lparr>Chunks := Chunks tempRT\<rparr>))"

section \<open>The sequence of records of an input\<close>

text \<open>
  The chunker as the specification words it, for comparison with the loop of
  \<^verbatim>\<open>LoadDataTable\<close>: a line that starts with the marker begins a record; the lines
  after it, up to the next marker line or the end of the input, belong to the record;
  lines before the first marker are discarded. \<open>records_from Sum256 n ls\<close> is the
  sequence of records of the lines \<open>ls\<close>, the first of which has the line number \<open>n\<close>.
\<close>

definition is_marker :: "string \<Rightarrow> bool" where
  "is_marker l = HasPrefix l ''Destination:''"

definition record_of :: "(string \<Rightarrow> string) \<Rightarrow> int \<Rightarrow> string \<Rightarrow> string list \<Rightarrow> Chunk" where
  "record_of Sum256 n l body =
     \<lparr>StartLine = n, EndLine = n + int (length body),
      Hash = hashChunk Sum256 (Join (l # body) [CHR 0x0A]),
      Data = Join (l # body) [CHR 0x0A],
      Destination = destination_of l n\<rparr>"

function records_from :: "(string \<Rightarrow> string) \<Rightarrow> int \<Rightarrow> string list \<Rightarrow> Chunk list" where
  "records_from Sum256 n [] = []"
| "records_from Sum256 n (l # ls) =
     (if is_marker l then
        record_of Sum256 n l (takeWhile (\<lambda>x. \<not> is_marker x) ls)
          # records_from Sum256 (n + 1 + int (length (takeWhile (\<lambda>x. \<not> is_marker x) ls)))
              (dropWhile (\<lambda>x. \<not> is_marker x) ls)
      else records_from Sum256 (n + 1) ls)"
  by pat_completeness auto
termination
  by (relation "measure (\<lambda>(S, n, ls). length ls)") (auto simp: length_dropWhile_le less_Suc_eq_le)

definition parse_records :: "(string \<Rightarrow> string) \<Rightarrow> string list \<Rightarrow> Chunk list" where
  "parse_records Sum256 ls = records_from Sum256 1 ls"

text \<open>Storing a sequence of records into a map, each under its destination, in order.\<close>

definition store_all :: "(string \<rightharpoonup> Chunk) \<Rightarrow> Chunk list \<Rightarrow> (string \<rightharpoonup> Chunk)" where
  "store_all m cs = foldl (\<lambda>m c. m(Destination c \<mapsto> c)) m cs"

text \<open>The marker line of a record of the input \<open>ls\<close>: the line at its start line.\<close>

definition marker_line :: "string list \<Rightarrow> Chunk \<Rightarrow> string" where
  "marker_line ls c = ls ! nat (StartLine c - 1)"

text \<open>
  What a record keeps when it moves in the file: its key, its raw content, its digest
  and its extent (the number of lines after its first).
\<close>

definition content :: "Chunk \<Rightarrow> string \<times> string \<times> string \<times> int" where
  "content c = (Destination c, Data c, Hash c, EndLine c - StartLine c)"

text \<open>The text that writes each record's raw content followed by a newline, in order.\<close>

definition records_text :: "Chunk list \<Rightarrow> string" where
  "records_text cs = concat (map (\<lambda>c. Data c @ [CHR 0x0A]) cs)"

text \<open>The block of \<^verbatim>\<open>LoadDataTable\<close> after its loop: the last chunk is saved.\<close>

definition finish :: "(string \<Rightarrow> string) \<Rightarrow> scan_state \<Rightarrow> (string \<rightharpoonup> Chunk)" where
  "finish Sum256 st = save_chunk Sum256 (lineNum st) st"

section \<open>The debounced file watcher\<close>

text \<open>
  Time is the reading of the clock in nanoseconds, and a \<^verbatim>\<open>time.Duration\<close> a number of
  nanoseconds. Every call of \<^verbatim>\<open>time.AfterFunc\<close> makes a timer of its own in the Go
  runtime: it expires at its deadline, and the runtime starts its function then or
  later, unless \<^verbatim>\<open>Stop\<close> was called on it before the function was started. The flag
  \<open>pending\<close> is true until the timer is stopped or its function has been started.
\<close>

record Timer =
  deadline :: int
  runs_at :: int
  pending :: bool

text \<open>\<^verbatim>\<open>fsnotify.Event\<close> and the two operation bits the watcher tests.\<close>

record Event =
  Name :: string
  Op :: "32 word"

definition Create :: "32 word" where
  "Create = 1"

definition Write :: "32 word" where
  "Write = 2"

text \<open>
  \<^verbatim>\<open>type FileWatcher struct\<close>, without the \<^verbatim>\<open>fsnotify\<close> watcher and the lock. The field
  \<^verbatim>\<open>timer\<close> is a pointer: nil, or the address of a timer of the runtime.
\<close>

record FileWatcher =
  filePath :: string
  debounce :: int
  lastEvent :: int
  timer :: "nat option"

text \<open>
  The watcher together with what it acts on: the timers the runtime has made so far,
  addressed by their position, and the times at which the callback \<^verbatim>\<open>onChange\<close> has
  been called.
\<close>

record world =
  fw :: FileWatcher
  timers :: "Timer list"
  onChangeCalls :: "int list"

text \<open>
  \<^verbatim>\<open>time.AfterFunc(d, f)\<close> called at the time \<open>now\<close>; the runtime will start \<open>f\<close> the
  time \<open>lag\<close> after the deadline. It returns the address of the new timer.
\<close>

definition AfterFunc :: "int \<Rightarrow> int \<Rightarrow> int \<Rightarrow> world \<Rightarrow> nat \<times> world" where
  "AfterFunc now d lag w =
     (let expires = (if d \<le> 0 then now else now + d)
      in (length (timers w),
          w\<lparr>timers := timers w @ [\<lparr>deadline = expires, runs_at = expires + lag, pending = True\<rparr>]\<rparr>))"

text \<open>\<^verbatim>\<open>t.Stop()\<close> for the timer at the address \<open>t\<close>.\<close>

definition Stop :: "nat \<Rightarrow> world \<Rightarrow> world" where
  "Stop t w =
     (if t < length (timers w) then w\<lparr>timers := (timers w)[t := (timers w ! t)\<lparr>pending := False\<rparr>]\<rparr>
      else w)"

text \<open>The function that \<^verbatim>\<open>handleChange\<close> gives to \<^verbatim>\<open>time.AfterFunc\<close>, run at the time \<open>now\<close>.\<close>

definition timer_func :: "int \<Rightarrow> world \<Rightarrow> world" where
  "timer_func now w = w\<lparr>fw := (fw w)\<lparr>lastEvent := now\<rparr>, onChangeCalls := onChangeCalls w @ [now]\<rparr>"

text \<open>\<^verbatim>\<open>handleChange\<close>, called at the time \<open>now\<close>.\<close>

definition handleChange :: "int \<Rightarrow> int \<Rightarrow> world \<Rightarrow> world" where
  "handleChange now lag w =
     (let w1 = (case timer (fw w) of None \<Rightarrow> w | Some t \<Rightarrow> Stop t w);
          (t', w2) = AfterFunc now (debounce (fw w1)) lag w1
      in w2\<lparr>fw := (fw w2)\<lparr>timer := Some t'\<rparr>\<rparr>)"

text \<open>
  The runtime starts the function of the timer at the address \<open>t\<close>; \<open>advance now\<close> is
  the passage of time up to \<open>now\<close>, in which the runtime starts the function of every
  pending timer whose time to run has come, the earliest first.
\<close>

definition run_timer :: "nat \<Rightarrow> world \<Rightarrow> world" where
  "run_timer t w =
     timer_func (runs_at (timers w ! t))
       (w\<lparr>timers := (timers w)[t := (timers w ! t)\<lparr>pending := False\<rparr>]\<rparr>)"

definition due :: "int \<Rightarrow> world \<Rightarrow> nat list" where
  "due now w =
     sort_key (\<lambda>t. runs_at (timers w ! t))
       (filter (\<lambda>t. pending (timers w ! t) \<and> runs_at (timers w ! t) \<le> now) [0..<length (timers w)])"

definition advance :: "int \<Rightarrow> world \<Rightarrow> world" where
  "advance now w = foldl (\<lambda>w t. run_timer t w) w (due now w)"

text \<open>
  A signal of the file system: the event, the time at which it arrived, the time at
  which the loop of \<^verbatim>\<open>watch\<close> received it from \<^verbatim>\<open>fw.watcher.Events\<close> and acted on it, and
  how long after its deadline the runtime starts the timer armed for it.
\<close>

record Signal =
  arrived :: int
  handled :: int
  timer_lag :: int
  event :: Event

text \<open>
  One iteration of the loop of \<^verbatim>\<open>watch\<close>, for the signal \<open>s\<close>: the timers whose time
  to run has come when the signal is handled have run before.
\<close>

definition watch_event :: "world \<Rightarrow> Signal \<Rightarrow> world" where
  "watch_event w0 s =
     (let w = advance (handled s) w0
      in if Name (event s) = filePath (fw w) then
           if Op (event s) AND Write = Write \<or> Op (event s) AND Create = Create
           then handleChange (handled s) (timer_lag s) w
           else w
         else w)"

definition watch :: "world \<Rightarrow> Signal list \<Rightarrow> world" where
  "watch w ss = foldl watch_event w ss"

text \<open>\<^verbatim>\<open>NewFileWatcher\<close> and a runtime that has no timer yet.\<close>

definition NewFileWatcher :: "string \<Rightarrow> int \<Rightarrow> world" where
  "NewFileWatcher path d =
     \<lparr>fw = \<lparr>filePath = path, debounce = d, lastEvent = 0, timer = None\<rparr>, timers = [],
      onChangeCalls = []\<rparr>"

text \<open>The signals the loop of \<^verbatim>\<open>watch\<close> passes on to \<^verbatim>\<open>handleChange\<close> for the file \<open>path\<close>.\<close>

definition relevant :: "string \<Rightarrow> Signal \<Rightarrow> bool" where
  "relevant path s =
     (Name (event s) = path \<and> (Op (event s) AND Write = Write \<or> Op (event s) AND Create = Create))"

text \<open>Each time of the list is less than \<open>d\<close> after the one before.\<close>

fun spaced :: "int \<Rightarrow> int list \<Rightarrow> bool" where
  "spaced d [] = True"
| "spaced d [h] = True"
| "spaced d (h # h' # hs) = (h' - h < d \<and> spaced d (h' # hs))"

text \<open>The time at which the runtime starts the timer armed for the signal \<open>s\<close>.\<close>

definition fire_time :: "int \<Rightarrow> Signal \<Rightarrow> int" where
  "fire_time d s = (if d \<le> 0 then handled s else handled s + d) + timer_lag s"

text \<open>
  The states the watcher can be in: every timer of the runtime that is still pending
  is the one \<^verbatim>\<open>fw.timer\<close> points at.
\<close>

definition tidy :: "world \<Rightarrow> bool" where
  "tidy w = (\<forall>t < length (timers w). pending (timers w ! t) \<longrightarrow> timer (fw w) = Some t)"

definition quiet :: "world \<Rightarrow> bool" where
  "quiet w = (\<forall>t < length (timers w). \<not> pending (timers w ! t))"

definition armed :: "world \<Rightarrow> int \<Rightarrow> bool" where
  "armed w r =
     (tidy w \<and> (\<exists>t. timer (fw w) = Some t \<and> t < length (timers w) \<and> pending (timers w ! t)
                  \<and> runs_at (timers w ! t) = r))"

section \<open>Evaluation on concrete inputs\<close>

lemmas load_eval = LoadDataTable_def scan_line_def scan_init_def save_chunk_def destination_of_def
  HasPrefix_def Fields_def asciiSpace_def hashChunk_def EncodeToString_def hex_char_def
  Sprintf_d_def digit_char_def NewDataTable_def Let_def

section \<open>Loading merges into the map of the table\<close>

lemma scan_line_add:
  "scan_line S (st\<lparr>rtChunks := m1 ++ rtChunks st\<rparr>) l =
   (scan_line S st l)\<lparr>rtChunks := m1 ++ rtChunks (scan_line S st l)\<rparr>"
  by (simp add: scan_line_def save_chunk_def Let_def split: option.splits)

lemma foldl_scan_line_add:
  "foldl (scan_line S) (st\<lparr>rtChunks := m1 ++ rtChunks st\<rparr>) ls =
   (foldl (scan_line S) st ls)\<lparr>rtChunks := m1 ++ rtChunks (foldl (scan_line S) st ls)\<rparr>"
proof (induction ls arbitrary: st)
  case Nil
  show ?case by simp
next
  case (Cons l ls)
  show ?case
    using Cons.IH [of "scan_line S st l"] by (simp add: scan_line_add)
qed

lemma save_chunk_add:
  "save_chunk S n (st\<lparr>rtChunks := m1 ++ rtChunks st\<rparr>) = m1 ++ save_chunk S n st"
  by (simp add: save_chunk_def Let_def split: option.splits)

lemma scan_chunks_add:
  "(let st = foldl (scan_line S) (scan_init m) ls in save_chunk S (lineNum st) st) =
   m ++ (let st = foldl (scan_line S) (scan_init Map.empty) ls in save_chunk S (lineNum st) st)"
proof -
  have i: "scan_init m = (scan_init Map.empty)\<lparr>rtChunks := m ++ rtChunks (scan_init Map.empty)\<rparr>"
    by (simp add: scan_init_def)
  show ?thesis
    unfolding i foldl_scan_line_add Let_def
    by (simp add: save_chunk_add)
qed

lemma LoadDataTable_Scan:
  "fs (FilePath rt) = Scan ls err \<Longrightarrow>
   LoadDataTable S fs rt =
     (if err then Some ReadError else None,
      rt\<lparr>Chunks := Chunks rt ++ Chunks (snd (LoadDataTable S fs (NewDataTable (FilePath rt))))\<rparr>)"
  using scan_chunks_add [of S "Chunks rt" ls]
  by (simp add: LoadDataTable_def NewDataTable_def Let_def)

lemma LoadDataTable_OpenFails:
  "fs (FilePath rt) = OpenFails \<Longrightarrow> LoadDataTable S fs rt = (Some OpenError, rt)"
  by (simp add: LoadDataTable_def)

text \<open>
  Claim C10. \<^verbatim>\<open>LoadDataTable\<close> never clears the map it is given: the map it leaves is
  the previous map overridden by the chunks of this parse (those a load into a new,
  empty table produces), so every key this parse does not produce keeps its previous
  chunk, also when the file no longer has that record.
\<close>

theorem LoadDataTable_merges:
  "Chunks (snd (LoadDataTable S fs rt)) =
     Chunks rt ++ Chunks (snd (LoadDataTable S fs (NewDataTable (FilePath rt))))
   \<and> (\<forall>k. k \<notin> dom (Chunks (snd (LoadDataTable S fs (NewDataTable (FilePath rt)))))
          \<longrightarrow> Chunks (snd (LoadDataTable S fs rt)) k = Chunks rt k)"
proof -
  have eq: "Chunks (snd (LoadDataTable S fs rt)) =
     Chunks rt ++ Chunks (snd (LoadDataTable S fs (NewDataTable (FilePath rt))))"
  proof (cases "fs (FilePath rt)")
    case OpenFails
    then show ?thesis by (simp add: LoadDataTable_def NewDataTable_def)
  next
    case (Scan ls err)
    then show ?thesis by (simp add: LoadDataTable_Scan)
  qed
  show ?thesis
    unfolding eq by (auto simp: map_add_def split: option.splits)
qed

text \<open>
  The table holds the record \<open>gone\<close>; the file now has the single record \<open>a\<close>. After a
  direct load the table still maps \<open>gone\<close> to its old chunk.
\<close>

theorem LoadDataTable_merges_witness:
  "''gone'' \<notin> dom (Chunks (snd (LoadDataTable (\<lambda>d. d) (\<lambda>p. Scan [''Destination: a''] False)
      (NewDataTable ''f''))))
   \<and> Chunks (snd (LoadDataTable (\<lambda>d. d) (\<lambda>p. Scan [''Destination: a''] False)
      \<lparr>FilePath = ''f'', Chunks = [''gone'' \<mapsto> \<lparr>StartLine = 1, EndLine = 1, Hash = ''00'',
          Data = ''Destination: gone'', Destination = ''gone''\<rparr>]\<rparr>)) ''gone''
     = Some \<lparr>StartLine = 1, EndLine = 1, Hash = ''00'', Data = ''Destination: gone'',
          Destination = ''gone''\<rparr>"
  using LoadDataTable_merges [of "\<lambda>d. d" "\<lambda>p. Scan [''Destination: a''] False"
     "\<lparr>FilePath = ''f'', Chunks = [''gone'' \<mapsto> \<lparr>StartLine = 1, EndLine = 1, Hash = ''00'',
          Data = ''Destination: gone'', Destination = ''gone''\<rparr>]\<rparr>"]
  by (simp add: load_eval)

section \<open>Failures of the read\<close>

text \<open>
  Claim C1, as stated, fails: the loop writes each finished chunk into the map of the
  table it was called on, and the error of the scanner is looked at only after the
  last chunk has been saved. With the one line \<open>Destination: a\<close> read before the
  error, the call returns the error and the map has gained the key \<open>a\<close>.
\<close>

theorem LoadDataTable_read_error_counterexample:
  "fst (LoadDataTable (\<lambda>d. d) (\<lambda>p. Scan [''Destination: a''] True) (NewDataTable ''f''))
     = Some ReadError
   \<and> Chunks (NewDataTable ''f'') ''a'' = None
   \<and> Chunks (snd (LoadDataTable (\<lambda>d. d) (\<lambda>p. Scan [''Destination: a''] True) (NewDataTable ''f''))) ''a''
     = Some \<lparr>StartLine = 1, EndLine = 1, Hash = ''44657374696e6174696f6e3a2061'',
             Data = ''Destination: a'', Destination = ''a''\<rparr>"
  by (simp add: load_eval)

text \<open>
  Claim C1, amended. When the file cannot be opened, \<^verbatim>\<open>LoadDataTable\<close> returns an error
  and leaves the table as it was. When the scanner reports an error after the lines
  \<open>ls\<close>, \<^verbatim>\<open>LoadDataTable\<close> returns an error, and the map it leaves is the previous map
  overridden by the chunks of the lines read before the error (what a successful load
  of exactly those lines into an empty table gives).
\<close>

theorem LoadDataTable_on_failure:
  "(fs (FilePath rt) = OpenFails \<longrightarrow> LoadDataTable S fs rt = (Some OpenError, rt))
   \<and> (fs (FilePath rt) = Scan ls True \<longrightarrow>
        fst (LoadDataTable S fs rt) = Some ReadError
        \<and> FilePath (snd (LoadDataTable S fs rt)) = FilePath rt
        \<and> Chunks (snd (LoadDataTable S fs rt)) =
            Chunks rt ++ Chunks (snd (LoadDataTable S (\<lambda>p. Scan ls False) (NewDataTable (FilePath rt)))))"
proof -
  have "Chunks (snd (LoadDataTable S fs (NewDataTable (FilePath rt)))) =
        Chunks (snd (LoadDataTable S (\<lambda>p. Scan ls False) (NewDataTable (FilePath rt))))"
    if "fs (FilePath rt) = Scan ls True"
    using that by (simp add: LoadDataTable_def NewDataTable_def Let_def)
  then show ?thesis
    by (auto simp: LoadDataTable_OpenFails LoadDataTable_Scan)
qed

text \<open>
  A file that cannot be opened, and a file whose read fails after one marker line.
\<close>

theorem LoadDataTable_on_failure_witness:
  "LoadDataTable (\<lambda>d. d) (\<lambda>p. OpenFails) (NewDataTable ''f'') = (Some OpenError, NewDataTable ''f'')
   \<and> fst (LoadDataTable (\<lambda>d. d) (\<lambda>p. Scan [''Destination: a''] True) (NewDataTable ''f''))
       = Some ReadError
   \<and> Chunks (snd (LoadDataTable (\<lambda>d. d) (\<lambda>p. Scan [''Destination: a''] True) (NewDataTable ''f'')))
       = [''a'' \<mapsto> \<lparr>StartLine = 1, EndLine = 1, Hash = ''44657374696e6174696f6e3a2061'',
                    Data = ''Destination: a'', Destination = ''a''\<rparr>]"
  using LoadDataTable_on_failure [of "\<lambda>p. OpenFails" "NewDataTable ''f''" "\<lambda>d. d" "[]"]
    LoadDataTable_on_failure [of "\<lambda>p. Scan [''Destination: a''] True" "NewDataTable ''f''"
      "\<lambda>d. d" "[''Destination: a'']"]
  by (simp add: load_eval)

text \<open>
  Claim C4. When the file cannot be opened, or the scanner reports an error,
  \<^verbatim>\<open>DetectChanges\<close> returns an error and the table is exactly what it was before the
  call: the reload went into a temporary table.
\<close>

theorem DetectChanges_failure_keeps_snapshot:
  "fs (FilePath rt) = OpenFails \<or> fs (FilePath rt) = Scan ls True \<Longrightarrow>
   \<exists>e. DetectChanges S fs r1 r2 r3 rt = (Inl (ReloadError e), rt)"
  by (auto simp: DetectChanges_def LoadDataTable_def NewDataTable_def Let_def)

text \<open>
  The table holds \<open>a\<close>; the read of the file fails after the line of a record \<open>b\<close>.
\<close>

theorem DetectChanges_failure_keeps_snapshot_witness:
  "DetectChanges (\<lambda>d. d) (\<lambda>p. Scan [''Destination: b''] True) [] [] []
      \<lparr>FilePath = ''f'', Chunks = [''a'' \<mapsto> \<lparr>StartLine = 1, EndLine = 1, Hash = ''00'',
          Data = ''Destination: a'', Destination = ''a''\<rparr>]\<rparr>
   = (Inl (ReloadError ReadError),
      \<lparr>FilePath = ''f'', Chunks = [''a'' \<mapsto> \<lparr>StartLine = 1, EndLine = 1, Hash = ''00'',
          Data = ''Destination: a'', Destination = ''a''\<rparr>]\<rparr>)"
  using DetectChanges_failure_keeps_snapshot [of "\<lambda>p. Scan [''Destination: b''] True"
      "\<lparr>FilePath = ''f'', Chunks = [''a'' \<mapsto> \<lparr>StartLine = 1, EndLine = 1, Hash = ''00'',
          Data = ''Destination: a'', Destination = ''a''\<rparr>]\<rparr>" "[''Destination: b'']" "\<lambda>d. d" "[]" "[]" "[]"]
  by (auto simp: DetectChanges_def load_eval)

text \<open>
  Claim C7. When \<^verbatim>\<open>DetectChanges\<close> succeeds, whatever list of changed destinations it
  returns, the map of the table is the map of the temporary table, which is what
  \<^verbatim>\<open>LoadDataTable\<close> parsed from the file into an empty table during this call.
\<close>

theorem DetectChanges_success_swaps:
  "DetectChanges S fs r1 r2 r3 rt = (Inr changed, rt') \<Longrightarrow>
   fst (LoadDataTable S fs (NewDataTable (FilePath rt))) = None
   \<and> Chunks rt' = Chunks (snd (LoadDataTable S fs (NewDataTable (FilePath rt))))
   \<and> FilePath rt' = FilePath rt"
  by (auto simp: DetectChanges_def Let_def split: prod.splits option.splits)

text \<open>
  The table holds \<open>a\<close> with another digest than the file now gives: the call reports
  \<open>a\<close> and the table holds the chunk just parsed.
\<close>

theorem DetectChanges_success_swaps_witness:
  "DetectChanges (\<lambda>d. d) (\<lambda>p. Scan [''Destination: a''] False)
      [(''a'', \<lparr>StartLine = 1, EndLine = 1, Hash = ''00'', Data = ''Destination: a '', Destination = ''a''\<rparr>)]
      [(''a'', \<lparr>StartLine = 1, EndLine = 1, Hash = ''00'', Data = ''Destination: a '', Destination = ''a''\<rparr>)]
      [(''a'', \<lparr>StartLine = 1, EndLine = 1, Hash = ''44657374696e6174696f6e3a2061'',
               Data = ''Destination: a'', Destination = ''a''\<rparr>)]
      \<lparr>FilePath = ''f'', Chunks = [''a'' \<mapsto> \<lparr>StartLine = 1, EndLine = 1, Hash = ''00'',
          Data = ''Destination: a '', Destination = ''a''\<rparr>]\<rparr>
   = (Inr [''a''],
      \<lparr>FilePath = ''f'', Chunks = [''a'' \<mapsto> \<lparr>StartLine = 1, EndLine = 1,
          Hash = ''44657374696e6174696f6e3a2061'', Data = ''Destination: a'', Destination = ''a''\<rparr>]\<rparr>)
   \<and> Chunks (snd (LoadDataTable (\<lambda>d. d) (\<lambda>p. Scan [''Destination: a''] False) (NewDataTable ''f'')))
     = [''a'' \<mapsto> \<lparr>StartLine = 1, EndLine = 1,
          Hash = ''44657374696e6174696f6e3a2061'', Data = ''Destination: a'', Destination = ''a''\<rparr>]"
proof -
  have h: "DetectChanges (\<lambda>d. d) (\<lambda>p. Scan [''Destination: a''] False)
      [(''a'', \<lparr>StartLine = 1, EndLine = 1, Hash = ''00'', Data = ''Destination: a '', Destination = ''a''\<rparr>)]
      [(''a'', \<lparr>StartLine = 1, EndLine = 1, Hash = ''00'', Data = ''Destination: a '', Destination = ''a''\<rparr>)]
      [(''a'', \<lparr>StartLine = 1, EndLine = 1, Hash = ''44657374696e6174696f6e3a2061'',
               Data = ''Destination: a'', Destination = ''a''\<rparr>)]
      \<lparr>FilePath = ''f'', Chunks = [''a'' \<mapsto> \<lparr>StartLine = 1, EndLine = 1, Hash = ''00'',
          Data = ''Destination: a '', Destination = ''a''\<rparr>]\<rparr>
   = (Inr [''a''],
      \<lparr>FilePath = ''f'', Chunks = [''a'' \<mapsto> \<lparr>StartLine = 1, EndLine = 1,
          Hash = ''44657374696e6174696f6e3a2061'', Data = ''Destination: a'', Destination = ''a''\<rparr>]\<rparr>)"
    by (simp add: DetectChanges_def load_eval)
  show ?thesis
    using DetectChanges_success_swaps [OF h] h by simp
qed

section \<open>The loop of the loader stores the sequence of records\<close>

lemma scan_line_marker:
  "is_marker l \<Longrightarrow>
   scan_line S st l =
     st\<lparr>lineNum := lineNum st + 1,
        rtChunks := save_chunk S (lineNum st) st,
        currentDestination := destination_of l (lineNum st + 1),
        currentChunk := Some \<lparr>StartLine = lineNum st + 1, EndLine = 0, Hash = [], Data = [],
                               Destination = destination_of l (lineNum st + 1)\<rparr>,
        chunkLines := [l]\<rparr>"
  by (simp add: scan_line_def is_marker_def Let_def save_chunk_def split: option.splits)

lemma scan_line_body:
  "\<not> is_marker l \<Longrightarrow> currentChunk st = Some c \<Longrightarrow>
   scan_line S st l = st\<lparr>lineNum := lineNum st + 1, chunkLines := chunkLines st @ [l]\<rparr>"
  by (simp add: scan_line_def is_marker_def Let_def)

lemma scan_line_preamble:
  "\<not> is_marker l \<Longrightarrow> currentChunk st = None \<Longrightarrow>
   scan_line S st l = st\<lparr>lineNum := lineNum st + 1\<rparr>"
  by (simp add: scan_line_def is_marker_def Let_def)

lemma scan_body:
  "\<forall>l \<in> set body. \<not> is_marker l \<Longrightarrow> currentChunk st = Some c \<Longrightarrow>
   foldl (scan_line S) st body =
     st\<lparr>lineNum := lineNum st + int (length body), chunkLines := chunkLines st @ body\<rparr>"
proof (induction body arbitrary: st)
  case Nil
  show ?case by simp
next
  case (Cons l body)
  have s: "scan_line S st l = st\<lparr>lineNum := lineNum st + 1, chunkLines := chunkLines st @ [l]\<rparr>"
    using Cons.prems by (simp add: scan_line_body)
  show ?case
    using Cons.IH [of "scan_line S st l"] Cons.prems
    by (simp add: s add.assoc)
qed

lemma scan_aligned:
  "ls = [] \<or> is_marker (hd ls) \<Longrightarrow>
   finish S (foldl (scan_line S) st ls) =
     store_all (finish S st) (records_from S (lineNum st + 1) ls)"
proof (induction ls arbitrary: st rule: length_induct)
  case (1 ls)
  show ?case
  proof (cases ls)
    case Nil
    then show ?thesis by (simp add: store_all_def)
  next
    case (Cons l ls')
    define body where "body = takeWhile (\<lambda>x. \<not> is_marker x) ls'"
    define rest where "rest = dropWhile (\<lambda>x. \<not> is_marker x) ls'"
    have m: "is_marker l" using "1.prems" Cons by simp
    have split: "ls' = body @ rest" by (simp add: body_def rest_def)
    have nb: "\<forall>x \<in> set body. \<not> is_marker x"
      unfolding body_def by (metis (mono_tags, lifting) set_takeWhileD)
    have al: "rest = [] \<or> is_marker (hd rest)"
      unfolding rest_def by (metis (mono_tags, lifting) hd_dropWhile)
    have len: "length rest < length ls"
      by (simp add: Cons split)
    define st1 where "st1 = scan_line S st l"
    define st2 where "st2 = foldl (scan_line S) st1 body"
    have st1: "st1 = st\<lparr>lineNum := lineNum st + 1,
        rtChunks := finish S st,
        currentDestination := destination_of l (lineNum st + 1),
        currentChunk := Some \<lparr>StartLine = lineNum st + 1, EndLine = 0, Hash = [], Data = [],
                               Destination = destination_of l (lineNum st + 1)\<rparr>,
        chunkLines := [l]\<rparr>"
      unfolding st1_def finish_def by (rule scan_line_marker [OF m])
    have st2: "st2 = st1\<lparr>lineNum := lineNum st1 + int (length body), chunkLines := chunkLines st1 @ body\<rparr>"
      unfolding st2_def by (rule scan_body [OF nb]) (simp add: st1)
    have f2: "finish S st2 =
        (finish S st)(Destination (record_of S (lineNum st + 1) l body) \<mapsto> record_of S (lineNum st + 1) l body)"
      by (simp add: st2 st1 finish_def save_chunk_def record_of_def Let_def)
    have n2: "lineNum st2 + 1 = lineNum st + 1 + 1 + int (length body)"
      by (simp add: st2 st1)
    have "finish S (foldl (scan_line S) st ls) = finish S (foldl (scan_line S) st2 rest)"
      by (simp add: Cons split st1_def st2_def)
    also have "\<dots> = store_all (finish S st2) (records_from S (lineNum st2 + 1) rest)"
      using "1.IH" len al by blast
    also have "\<dots> = store_all (finish S st) (records_from S (lineNum st + 1) ls)"
      unfolding n2 f2
      by (simp add: Cons m store_all_def body_def rest_def)
    finally show ?thesis .
  qed
qed

lemma scan_refines:
  "currentChunk st = None \<Longrightarrow>
   finish S (foldl (scan_line S) st ls) = store_all (rtChunks st) (records_from S (lineNum st + 1) ls)"
proof (induction ls arbitrary: st)
  case Nil
  then show ?case by (simp add: finish_def save_chunk_def store_all_def)
next
  case (Cons l ls)
  show ?case
  proof (cases "is_marker l")
    case True
    have "finish S st = rtChunks st"
      using Cons.prems by (simp add: finish_def save_chunk_def)
    then show ?thesis
      using scan_aligned [of "l # ls" S st] True by simp
  next
    case False
    have s: "scan_line S st l = st\<lparr>lineNum := lineNum st + 1\<rparr>"
      using False Cons.prems by (rule scan_line_preamble)
    show ?thesis
      using Cons.IH [of "st\<lparr>lineNum := lineNum st + 1\<rparr>"] Cons.prems False
      by (simp add: s)
  qed
qed

lemma LoadDataTable_refines:
  "fs (FilePath rt) = Scan ls err \<Longrightarrow>
   Chunks (snd (LoadDataTable S fs rt)) = store_all (Chunks rt) (parse_records S ls)"
  using scan_refines [of "scan_init (Chunks rt)" S ls]
  by (simp add: LoadDataTable_def Let_def finish_def parse_records_def scan_init_def)

section \<open>The comparison loops\<close>

lemma copy_chunks_distinct:
  "distinct (map fst ps) \<Longrightarrow> copy_chunks ps m = m ++ map_of ps"
proof (induction ps arbitrary: m)
  case Nil
  show ?case by simp
next
  case (Cons p ps)
  obtain k v where p: "p = (k, v)" by (cases p)
  have k: "map_of ps k = None"
    using Cons.prems by (simp add: p map_of_eq_None_iff)
  have "copy_chunks (p # ps) m = m(k \<mapsto> v) ++ map_of ps"
    using Cons.IH Cons.prems by (simp add: p)
  also have "\<dots> = m ++ map_of (p # ps)"
    using k by (auto simp: p map_add_def fun_eq_iff split: option.splits)
  finally show ?case .
qed

lemma copy_chunks_ranges: "ranges m ps \<Longrightarrow> copy_chunks ps Map.empty = m"
  by (simp add: ranges_def copy_chunks_distinct)

lemma check_existing_filter:
  "check_existing new ps acc =
     acc @ map fst (filter (\<lambda>p. case new (fst p) of None \<Rightarrow> True | Some c \<Rightarrow> Hash c \<noteq> Hash (snd p)) ps)"
  by (induction new ps acc rule: check_existing.induct) (auto split: option.splits)

lemma check_new_filter:
  "check_new old ps acc = acc @ map fst (filter (\<lambda>p. old (fst p) = None) ps)"
  by (induction old ps acc rule: check_new.induct) auto

lemma ranges_mem: "ranges m ps \<Longrightarrow> (k, v) \<in> set ps \<longleftrightarrow> m k = Some v"
  by (auto simp: ranges_def)

lemma changed_distinct:
  assumes "ranges old r2" "ranges new r3"
  shows "distinct (check_new old r3 (check_existing new r2 []))"
proof -
  have d2: "distinct (map fst (filter P r2))" for P
    using assms(1) by (simp add: ranges_def distinct_map_filter)
  have d3: "distinct (map fst (filter P r3))" for P
    using assms(2) by (simp add: ranges_def distinct_map_filter)
  have "k \<notin> fst ` {p \<in> set r3. old (fst p) = None}" if "k \<in> fst ` {p \<in> set r2. P p}" for k P
    using that ranges_mem [OF assms(1)] by auto
  then show ?thesis
    using d2 d3 by (auto simp: check_existing_filter check_new_filter)
qed

lemma changed_set:
  assumes "ranges old r2" "ranges new r3"
  shows "set (check_new old r3 (check_existing new r2 [])) =
         {k \<in> dom old \<union> dom new.
            k \<notin> dom old \<or> k \<notin> dom new \<or> (\<exists>a b. old k = Some a \<and> new k = Some b \<and> Hash a \<noteq> Hash b)}"
proof (rule set_eqI)
  fix k
  have a: "k \<in> fst ` {p \<in> set r2. case new (fst p) of None \<Rightarrow> True | Some c \<Rightarrow> Hash c \<noteq> Hash (snd p)} \<longleftrightarrow>
        (\<exists>a. old k = Some a \<and> (new k = None \<or> (\<exists>b. new k = Some b \<and> Hash b \<noteq> Hash a)))"
    using ranges_mem [OF assms(1)]
    by (force simp: image_iff split: option.splits)
  have b: "k \<in> fst ` {p \<in> set r3. old (fst p) = None} \<longleftrightarrow> (\<exists>b. new k = Some b \<and> old k = None)"
    using ranges_mem [OF assms(2)] by (force simp: image_iff)
  show "k \<in> set (check_new old r3 (check_existing new r2 [])) \<longleftrightarrow>
        k \<in> {k \<in> dom old \<union> dom new.
            k \<notin> dom old \<or> k \<notin> dom new \<or> (\<exists>a b. old k = Some a \<and> new k = Some b \<and> Hash a \<noteq> Hash b)}"
    unfolding check_existing_filter check_new_filter
    using a b by (auto simp: dom_def)
qed

lemma DetectChanges_Inr:
  assumes "ranges (Chunks rt) r1"
    and "DetectChanges S fs r1 r2 r3 rt = (Inr changed, rt')"
  shows "changed = check_new (Chunks rt) r3 (check_existing (Chunks rt') r2 [])"
  using assms(2) copy_chunks_ranges [OF assms(1)]
  by (auto simp: DetectChanges_def Let_def split: prod.splits option.splits)

text \<open>
  Claim C2. When \<^verbatim>\<open>DetectChanges\<close> succeeds, with \<open>old\<close> the map of the table before
  the call and \<open>new\<close> the freshly parsed map it leaves in the table, the list it returns
  has no key twice, and its keys are exactly the keys of \<open>old\<close> or \<open>new\<close> that are
  missing from one of them or have different digests in the two. The three loops may
  visit their maps in any order.
\<close>

theorem DetectChanges_changed_keys:
  assumes "ranges (Chunks rt) r1" and "ranges (Chunks rt) r2" and "ranges (Chunks rt') r3"
    and "DetectChanges S fs r1 r2 r3 rt = (Inr changed, rt')"
  shows "Chunks rt' = Chunks (snd (LoadDataTable S fs (NewDataTable (FilePath rt))))
     \<and> distinct changed
     \<and> set changed =
         {k \<in> dom (Chunks rt) \<union> dom (Chunks rt').
            k \<notin> dom (Chunks rt) \<or> k \<notin> dom (Chunks rt') \<or>
            (\<exists>a b. Chunks rt k = Some a \<and> Chunks rt' k = Some b \<and> Hash a \<noteq> Hash b)}"
proof -
  have c: "changed = check_new (Chunks rt) r3 (check_existing (Chunks rt') r2 [])"
    using assms(1,4) by (rule DetectChanges_Inr)
  have n: "Chunks rt' = Chunks (snd (LoadDataTable S fs (NewDataTable (FilePath rt))))"
    using assms(4) by (auto simp: DetectChanges_def Let_def split: prod.splits option.splits)
  show ?thesis
    unfolding c using n changed_distinct [OF assms(2,3)] changed_set [OF assms(2,3)] by simp
qed

text \<open>
  The table holds \<open>a\<close> and \<open>b\<close>; the file now has \<open>b\<close>, unchanged, and \<open>c\<close>: the keys
  reported are \<open>a\<close> and \<open>c\<close>.
\<close>

theorem DetectChanges_changed_keys_witness:
  "DetectChanges (\<lambda>d. d) (\<lambda>p. Scan [''Destination: b'', ''Destination: c''] False)
      [(''b'', \<lparr>StartLine = 2, EndLine = 2, Hash = ''44657374696e6174696f6e3a2062'',
               Data = ''Destination: b'', Destination = ''b''\<rparr>),
       (''a'', \<lparr>StartLine = 1, EndLine = 1, Hash = ''44657374696e6174696f6e3a2061'',
               Data = ''Destination: a'', Destination = ''a''\<rparr>)]
      [(''b'', \<lparr>StartLine = 2, EndLine = 2, Hash = ''44657374696e6174696f6e3a2062'',
               Data = ''Destination: b'', Destination = ''b''\<rparr>),
       (''a'', \<lparr>StartLine = 1, EndLine = 1, Hash = ''44657374696e6174696f6e3a2061'',
               Data = ''Destination: a'', Destination = ''a''\<rparr>)]
      [(''c'', \<lparr>StartLine = 2, EndLine = 2, Hash = ''44657374696e6174696f6e3a2063'',
               Data = ''Destination: c'', Destination = ''c''\<rparr>),
       (''b'', \<lparr>StartLine = 1, EndLine = 1, Hash = ''44657374696e6174696f6e3a2062'',
               Data = ''Destination: b'', Destination = ''b''\<rparr>)]
      \<lparr>FilePath = ''f'', Chunks =
         [''a'' \<mapsto> \<lparr>StartLine = 1, EndLine = 1, Hash = ''44657374696e6174696f6e3a2061'',
               Data = ''Destination: a'', Destination = ''a''\<rparr>,
          ''b'' \<mapsto> \<lparr>StartLine = 2, EndLine = 2, Hash = ''44657374696e6174696f6e3a2062'',
               Data = ''Destination: b'', Destination = ''b''\<rparr>]\<rparr>
   = (Inr [''a'', ''c''],
      \<lparr>FilePath = ''f'', Chunks =
         [''b'' \<mapsto> \<lparr>StartLine = 1, EndLine = 1, Hash = ''44657374696e6174696f6e3a2062'',
               Data = ''Destination: b'', Destination = ''b''\<rparr>,
          ''c'' \<mapsto> \<lparr>StartLine = 2, EndLine = 2, Hash = ''44657374696e6174696f6e3a2063'',
               Data = ''Destination: c'', Destination = ''c''\<rparr>]\<rparr>)
   \<and> set [''a'', ''c''] =
       {k \<in> dom [''a'' \<mapsto> \<lparr>StartLine = 1, EndLine = 1, Hash = ''44657374696e6174696f6e3a2061'',
               Data = ''Destination: a'', Destination = ''a''\<rparr>,
          ''b'' \<mapsto> \<lparr>StartLine = 2, EndLine = 2, Hash = ''44657374696e6174696f6e3a2062'',
               Data = ''Destination: b'', Destination = ''b''\<rparr>]
          \<union> dom [''b'' \<mapsto> \<lparr>StartLine = 1, EndLine = 1, Hash = ''44657374696e6174696f6e3a2062'',
               Data = ''Destination: b'', Destination = ''b''\<rparr>,
          ''c'' \<mapsto> \<lparr>StartLine = 2, EndLine = 2, Hash = ''44657374696e6174696f6e3a2063'',
               Data = ''Destination: c'', Destination = ''c''\<rparr>].
          k \<noteq> ''b''}"
proof -
  define A where "A = \<lparr>StartLine = 1, EndLine = 1, Hash = ''44657374696e6174696f6e3a2061'',
               Data = ''Destination: a'', Destination = ''a''\<rparr>"
  define B where "B = \<lparr>StartLine = 2, EndLine = 2, Hash = ''44657374696e6174696f6e3a2062'',
               Data = ''Destination: b'', Destination = ''b''\<rparr>"
  define B' where "B' = \<lparr>StartLine = 1, EndLine = 1, Hash = ''44657374696e6174696f6e3a2062'',
               Data = ''Destination: b'', Destination = ''b''\<rparr>"
  define C where "C = \<lparr>StartLine = 2, EndLine = 2, Hash = ''44657374696e6174696f6e3a2063'',
               Data = ''Destination: c'', Destination = ''c''\<rparr>"
  define rt where "rt = \<lparr>FilePath = ''f'', Chunks = [''a'' \<mapsto> A, ''b'' \<mapsto> B]\<rparr>"
  define rt' where "rt' = \<lparr>FilePath = ''f'', Chunks = [''b'' \<mapsto> B', ''c'' \<mapsto> C]\<rparr>"
  have h1: "ranges (Chunks rt) [(''b'', B), (''a'', A)]"
    by (simp add: ranges_def rt_def)
  have h3: "ranges (Chunks rt') [(''c'', C), (''b'', B')]"
    by (simp add: ranges_def rt'_def)
  have h4: "DetectChanges (\<lambda>d. d) (\<lambda>p. Scan [''Destination: b'', ''Destination: c''] False)
      [(''b'', B), (''a'', A)] [(''b'', B), (''a'', A)] [(''c'', C), (''b'', B')] rt
      = (Inr [''a'', ''c''], rt')"
    by (simp add: DetectChanges_def load_eval rt_def rt'_def A_def B_def B'_def C_def)
  have "set [''a'', ''c''] =
         {k \<in> dom (Chunks rt) \<union> dom (Chunks rt').
            k \<notin> dom (Chunks rt) \<or> k \<notin> dom (Chunks rt') \<or>
            (\<exists>a b. Chunks rt k = Some a \<and> Chunks rt' k = Some b \<and> Hash a \<noteq> Hash b)}"
    using DetectChanges_changed_keys [OF h1 h1 h3 h4] by simp
  also have "\<dots> = {k \<in> dom (Chunks rt) \<union> dom (Chunks rt'). k \<noteq> ''b''}"
    by (auto simp: rt_def rt'_def B_def B'_def)
  finally show ?thesis
    using h4 by (simp add: rt_def rt'_def A_def B_def B'_def C_def)
qed

text \<open>
  Claim C9. When the freshly parsed map has the keys of the map of the table, each
  with the digest it has there (the table against itself, or against a parse of
  identical content), \<^verbatim>\<open>DetectChanges\<close> returns the empty list.
\<close>

theorem DetectChanges_same_snapshot:
  assumes "ranges (Chunks rt) r1" and "ranges (Chunks rt) r2" and "ranges (Chunks rt') r3"
    and "DetectChanges S fs r1 r2 r3 rt = (Inr changed, rt')"
    and "\<forall>k. map_option Hash (Chunks rt' k) = map_option Hash (Chunks rt k)"
  shows "changed = []"
proof -
  have c: "changed = check_new (Chunks rt) r3 (check_existing (Chunks rt') r2 [])"
    using assms(1,4) by (rule DetectChanges_Inr)
  have "k \<notin> set changed" for k
    unfolding c changed_set [OF assms(2,3)]
    using assms(5) [rule_format, of k]
    by (cases "Chunks rt k"; cases "Chunks rt' k") auto
  then show ?thesis
    by (cases changed) auto
qed


text \<open>The file still has the one record the table holds: nothing is reported.\<close>

theorem DetectChanges_same_snapshot_witness:
  "DetectChanges (\<lambda>d. d) (\<lambda>p. Scan [''Destination: a''] False)
      [(''a'', \<lparr>StartLine = 1, EndLine = 1, Hash = ''44657374696e6174696f6e3a2061'',
               Data = ''Destination: a'', Destination = ''a''\<rparr>)]
      [(''a'', \<lparr>StartLine = 1, EndLine = 1, Hash = ''44657374696e6174696f6e3a2061'',
               Data = ''Destination: a'', Destination = ''a''\<rparr>)]
      [(''a'', \<lparr>StartLine = 1, EndLine = 1, Hash = ''44657374696e6174696f6e3a2061'',
               Data = ''Destination: a'', Destination = ''a''\<rparr>)]
      \<lparr>FilePath = ''f'', Chunks = [''a'' \<mapsto> \<lparr>StartLine = 1, EndLine = 1,
          Hash = ''44657374696e6174696f6e3a2061'', Data = ''Destination: a'', Destination = ''a''\<rparr>]\<rparr>
   = (Inr [],
      \<lparr>FilePath = ''f'', Chunks = [''a'' \<mapsto> \<lparr>StartLine = 1, EndLine = 1,
          Hash = ''44657374696e6174696f6e3a2061'', Data = ''Destination: a'', Destination = ''a''\<rparr>]\<rparr>)"
proof -
  define A where "A = \<lparr>StartLine = 1, EndLine = 1, Hash = ''44657374696e6174696f6e3a2061'',
               Data = ''Destination: a'', Destination = ''a''\<rparr>"
  define rt where "rt = \<lparr>FilePath = ''f'', Chunks = [''a'' \<mapsto> A]\<rparr>"
  obtain changed rt' where h4: "DetectChanges (\<lambda>d. d) (\<lambda>p. Scan [''Destination: a''] False)
      [(''a'', A)] [(''a'', A)] [(''a'', A)] rt = (Inr changed, rt')" and r: "rt' = rt"
    by (simp add: DetectChanges_def load_eval rt_def A_def)
  have h1: "ranges (Chunks rt) [(''a'', A)]"
    by (simp add: ranges_def rt_def)
  have h3: "ranges (Chunks rt') [(''a'', A)]"
    by (simp add: ranges_def rt_def r)
  have "changed = []"
    using DetectChanges_same_snapshot [OF h1 h1 h3 h4] by (simp add: r)
  then show ?thesis
    using h4 by (simp add: r rt_def A_def)
qed

section \<open>Duplicate keys\<close>

lemma store_all_snoc: "store_all m (cs @ [c]) = (store_all m cs)(Destination c \<mapsto> c)"
  by (simp add: store_all_def)

lemma store_all_last:
  "store_all m cs k =
     (if filter (\<lambda>c. Destination c = k) cs = [] then m k
      else Some (last (filter (\<lambda>c. Destination c = k) cs)))"
proof (induction cs rule: rev_induct)
  case Nil
  show ?case by (simp add: store_all_def)
next
  case (snoc c cs)
  show ?case
    using snoc.IH by (simp add: store_all_snoc)
qed

lemma store_all_key: "store_all Map.empty cs k = Some c \<Longrightarrow> Destination c = k \<and> c \<in> set cs"
proof (induction cs arbitrary: c rule: rev_induct)
  case Nil
  then show ?case by (simp add: store_all_def)
next
  case (snoc x cs)
  then show ?case
    by (auto simp: store_all_snoc split: if_splits)
qed

lemma LoadDataTable_new_refines:
  "fs p = Scan ls err \<Longrightarrow>
   Chunks (snd (LoadDataTable S fs (NewDataTable p))) = store_all Map.empty (parse_records S ls)"
  using LoadDataTable_refines [of fs "NewDataTable p" ls err S]
  by (simp add: NewDataTable_def)

text \<open>
  Claim C8. A table loaded from empty holds, under each key, the last of the records
  of the input that have this key (none when no record has it), and every chunk is
  held under its own destination: two entries with the same identity key are one
  entry.
\<close>

theorem snapshot_last_record_wins:
  assumes "fs p = Scan ls err"
  shows "Chunks (snd (LoadDataTable S fs (NewDataTable p))) k =
           (if filter (\<lambda>c. Destination c = k) (parse_records S ls) = [] then None
            else Some (last (filter (\<lambda>c. Destination c = k) (parse_records S ls))))
     \<and> (\<forall>k' c c'. Chunks (snd (LoadDataTable S fs (NewDataTable p))) k = Some c
            \<and> Chunks (snd (LoadDataTable S fs (NewDataTable p))) k' = Some c'
            \<and> Destination c = Destination c' \<longrightarrow> k = k' \<and> c = c')"
proof -
  have r: "Chunks (snd (LoadDataTable S fs (NewDataTable p))) = store_all Map.empty (parse_records S ls)"
    using assms by (rule LoadDataTable_new_refines)
  have a: "store_all Map.empty (parse_records S ls) k =
           (if filter (\<lambda>c. Destination c = k) (parse_records S ls) = [] then None
            else Some (last (filter (\<lambda>c. Destination c = k) (parse_records S ls))))"
    by (simp add: store_all_last)
  have b: "k = k' \<and> c = c'"
    if "store_all Map.empty (parse_records S ls) k = Some c"
      and "store_all Map.empty (parse_records S ls) k' = Some c'"
      and "Destination c = Destination c'" for k' c c'
  proof -
    have "Destination c = k" "Destination c' = k'"
      using that(1,2) store_all_key by blast+
    then have "k = k'" using that(3) by simp
    then show ?thesis using that(1,2) by simp
  qed
  show ?thesis
    unfolding r using a b by blast
qed

text \<open>
  Two records have the key \<open>a\<close>; the table holds the second, which starts at line 3.
\<close>

theorem snapshot_last_record_wins_witness:
  "Chunks (snd (LoadDataTable (\<lambda>d. d)
       (\<lambda>p. Scan [''Destination: a'', ''x'', ''Destination: a'', ''y''] False) (NewDataTable ''f''))) ''a''
     = Some \<lparr>StartLine = 3, EndLine = 4, Hash = ''44657374696e6174696f6e3a20610a79'',
             Data = ''Destination: a\<newline>y'', Destination = ''a''\<rparr>
   \<and> parse_records (\<lambda>d. d) [''Destination: a'', ''x'', ''Destination: a'', ''y''] =
       [\<lparr>StartLine = 1, EndLine = 2, Hash = ''44657374696e6174696f6e3a20610a78'',
             Data = ''Destination: a\<newline>x'', Destination = ''a''\<rparr>,
        \<lparr>StartLine = 3, EndLine = 4, Hash = ''44657374696e6174696f6e3a20610a79'',
             Data = ''Destination: a\<newline>y'', Destination = ''a''\<rparr>]"
proof -
  have p: "parse_records (\<lambda>d. d) [''Destination: a'', ''x'', ''Destination: a'', ''y''] =
       [\<lparr>StartLine = 1, EndLine = 2, Hash = ''44657374696e6174696f6e3a20610a78'',
             Data = ''Destination: a\<newline>x'', Destination = ''a''\<rparr>,
        \<lparr>StartLine = 3, EndLine = 4, Hash = ''44657374696e6174696f6e3a20610a79'',
             Data = ''Destination: a\<newline>y'', Destination = ''a''\<rparr>]"
    by (simp add: parse_records_def is_marker_def record_of_def load_eval)
  show ?thesis
    using snapshot_last_record_wins [of "\<lambda>p. Scan [''Destination: a'', ''x'', ''Destination: a'', ''y''] False"
         "''f''" "[''Destination: a'', ''x'', ''Destination: a'', ''y'']" False "\<lambda>d. d" "''a''"]
    unfolding p by simp
qed

section \<open>Decimal numerals\<close>

lemma digit_char_inj: "a < 10 \<Longrightarrow> b < 10 \<Longrightarrow> digit_char a = digit_char b \<Longrightarrow> a = b"
proof -
  assume a: "a < 10" and b: "b < 10" and e: "digit_char a = digit_char b"
  have d: "distinct ''0123456789''" by simp
  have "a < length ''0123456789''" "b < length ''0123456789''" using a b by simp_all
  then show "a = b"
    using e d unfolding digit_char_def by (simp only: nth_eq_iff_index_eq)
qed

lemma digit_char_mem: "a < 10 \<Longrightarrow> digit_char a \<in> set ''0123456789''"
  unfolding digit_char_def by (rule nth_mem) simp

lemma digits_nonempty: "digits n \<noteq> []"
  by (subst digits.simps) simp

lemma digits_set: "set (digits n) \<subseteq> set ''0123456789''"
proof (induction n rule: digits.induct)
  case (1 n)
  show ?case
  proof (cases "n < 10")
    case True
    then show ?thesis
      using digit_char_mem [of n] by (subst digits.simps) simp
  next
    case False
    have "digit_char (n mod 10) \<in> set ''0123456789''"
      by (rule digit_char_mem) simp
    then show ?thesis
      using "1.IH" False by (subst digits.simps) simp
  qed
qed

lemma digits_inj: "digits m = digits n \<Longrightarrow> m = n"
proof (induction m arbitrary: n rule: digits.induct)
  case (1 m)
  show ?case
  proof (cases "m < 10")
    case m: True
    show ?thesis
    proof (cases "n < 10")
      case True
      then show ?thesis
        using m "1.prems" digit_char_inj [of m n]
        by (subst (asm) digits.simps, subst (asm) (2) digits.simps) simp
    next
      case False
      have "digits n = digits (n div 10) @ [digit_char (n mod 10)]"
        using False by (subst digits.simps) simp
      moreover have "digits m = [digit_char m]"
        using m by (subst digits.simps) simp
      ultimately show ?thesis
        using "1.prems" digits_nonempty [of "n div 10"] by simp
    qed
  next
    case m: False
    have dm: "digits m = digits (m div 10) @ [digit_char (m mod 10)]"
      using m by (subst digits.simps) simp
    show ?thesis
    proof (cases "n < 10")
      case True
      have "digits n = [digit_char n]"
        using True by (subst digits.simps) simp
      then show ?thesis
        using "1.prems" dm digits_nonempty [of "m div 10"] by simp
    next
      case False
      have dn: "digits n = digits (n div 10) @ [digit_char (n mod 10)]"
        using False by (subst digits.simps) simp
      have e: "digits (m div 10) = digits (n div 10)" "digit_char (m mod 10) = digit_char (n mod 10)"
        using "1.prems" dm dn by simp_all
      have "m div 10 = n div 10"
        using "1.IH" [OF m e(1)] .
      moreover have "m mod 10 = n mod 10"
        using e(2) by (intro digit_char_inj) simp_all
      ultimately show ?thesis
        by (metis div_mult_mod_eq)
    qed
  qed
qed

lemma Sprintf_d_inj: "Sprintf_d a = Sprintf_d b \<Longrightarrow> a = b"
proof -
  assume e: "Sprintf_d a = Sprintf_d b"
  have minus: "CHR ''-'' # ds \<noteq> digits n" for ds n
  proof
    assume "CHR ''-'' # ds = digits n"
    then have "CHR ''-'' \<in> set (digits n)" by (metis list.set_intros(1))
    then show False using digits_set [of n] by auto
  qed
  consider "a < 0" "b < 0" | "a < 0" "\<not> b < 0" | "\<not> a < 0" "b < 0" | "\<not> a < 0" "\<not> b < 0"
    by blast
  then show "a = b"
  proof cases
    case 1
    then have "nat (- a) = nat (- b)"
      using e by (simp add: Sprintf_d_def digits_inj)
    then show ?thesis using 1 by simp
  next
    case 2
    then show ?thesis using e minus by (simp add: Sprintf_d_def)
  next
    case 3
    then show ?thesis using e minus [of "digits (nat (- b))" "nat a"] by (simp add: Sprintf_d_def)
  next
    case 4
    then have "nat a = nat b"
      using e by (simp add: Sprintf_d_def digits_inj)
    then show ?thesis using 4 by simp
  qed
qed

section \<open>The set of records of an input\<close>

lemma records_from_set:
  "c \<in> set (records_from S n ls) \<longleftrightarrow>
   (\<exists>i < length ls. is_marker (ls ! i) \<and>
      c = record_of S (n + int i) (ls ! i) (takeWhile (\<lambda>x. \<not> is_marker x) (drop (Suc i) ls)))"
proof (induction S n ls rule: records_from.induct)
  case (1 S n)
  show ?case by simp
next
  case (2 S n l ls)
  define body where "body = takeWhile (\<lambda>x. \<not> is_marker x) ls"
  define rest where "rest = dropWhile (\<lambda>x. \<not> is_marker x) ls"
  have split: "ls = body @ rest" by (simp add: body_def rest_def)
  have nb: "\<not> is_marker (body ! j)" if "j < length body" for j
    using that unfolding body_def by (metis (mono_tags, lifting) nth_mem set_takeWhileD)
  show ?case
  proof (cases "is_marker l")
    case False
    have "(\<exists>i < length (l # ls). is_marker ((l # ls) ! i) \<and>
        c = record_of S (n + int i) ((l # ls) ! i) (takeWhile (\<lambda>x. \<not> is_marker x) (drop (Suc i) (l # ls))))
      \<longleftrightarrow> (\<exists>j < length ls. is_marker (ls ! j) \<and>
        c = record_of S (n + 1 + int j) (ls ! j) (takeWhile (\<lambda>x. \<not> is_marker x) (drop (Suc j) ls)))"
      (is "?A \<longleftrightarrow> ?B")
    proof
      assume ?A
      then obtain i where i: "i < length (l # ls)" "is_marker ((l # ls) ! i)"
        "c = record_of S (n + int i) ((l # ls) ! i) (takeWhile (\<lambda>x. \<not> is_marker x) (drop (Suc i) (l # ls)))"
        by blast
      from i(2) False obtain j where j: "i = Suc j" by (cases i) auto
      show ?B
        using i unfolding j by (intro exI [of _ j]) (simp add: add.assoc)
    next
      assume ?B
      then obtain j where j: "j < length ls" "is_marker (ls ! j)"
        "c = record_of S (n + 1 + int j) (ls ! j) (takeWhile (\<lambda>x. \<not> is_marker x) (drop (Suc j) ls))"
        by blast
      show ?A
        using j by (intro exI [of _ "Suc j"]) (simp add: add.assoc)
    qed
    then show ?thesis
      using False "2.IH"(2) by simp
  next
    case True
    have ih: "c \<in> set (records_from S (n + 1 + int (length body)) rest) \<longleftrightarrow>
      (\<exists>i < length rest. is_marker (rest ! i) \<and>
        c = record_of S (n + 1 + int (length body) + int i) (rest ! i)
              (takeWhile (\<lambda>x. \<not> is_marker x) (drop (Suc i) rest)))"
      using "2.IH"(1) [OF True] unfolding body_def rest_def .
    have "(\<exists>i < length (l # ls). is_marker ((l # ls) ! i) \<and>
        c = record_of S (n + int i) ((l # ls) ! i) (takeWhile (\<lambda>x. \<not> is_marker x) (drop (Suc i) (l # ls))))
      \<longleftrightarrow> c = record_of S n l body \<or> (\<exists>j < length rest. is_marker (rest ! j) \<and>
        c = record_of S (n + 1 + int (length body) + int j) (rest ! j)
              (takeWhile (\<lambda>x. \<not> is_marker x) (drop (Suc j) rest)))"
      (is "?A \<longleftrightarrow> ?C \<or> ?B")
    proof
      assume ?A
      then obtain i where i: "i < length (l # ls)" "is_marker ((l # ls) ! i)"
        "c = record_of S (n + int i) ((l # ls) ! i) (takeWhile (\<lambda>x. \<not> is_marker x) (drop (Suc i) (l # ls)))"
        by blast
      show "?C \<or> ?B"
      proof (cases i)
        case 0
        then show ?thesis using i(3) by (simp add: body_def)
      next
        case (Suc k)
        have k: "k < length ls" "is_marker (ls ! k)" using i(1,2) Suc by simp_all
        have "\<not> k < length body" using nb [of k] k(2) by (auto simp: split nth_append)
        then obtain j where j: "k = length body + j" by (metis le_add_diff_inverse not_less)
        have "j < length rest" using k(1) by (simp add: split j)
        moreover have "is_marker (rest ! j)" using k(2) by (simp add: split j nth_append)
        moreover have "c = record_of S (n + 1 + int (length body) + int j) (rest ! j)
              (takeWhile (\<lambda>x. \<not> is_marker x) (drop (Suc j) rest))"
          using i(3) by (simp add: Suc j split nth_append add.assoc)
        ultimately show ?thesis by blast
      qed
    next
      assume "?C \<or> ?B"
      then show ?A
      proof
        assume ?C
        then show ?A using True by (intro exI [of _ 0]) (simp add: body_def)
      next
        assume ?B
        then obtain j where j: "j < length rest" "is_marker (rest ! j)"
          "c = record_of S (n + 1 + int (length body) + int j) (rest ! j)
              (takeWhile (\<lambda>x. \<not> is_marker x) (drop (Suc j) rest))"
          by blast
        show ?A
          using j by (intro exI [of _ "Suc (length body + j)"]) (simp add: split nth_append add.assoc)
      qed
    qed
    then show ?thesis
      using True ih by (simp add: body_def rest_def)
  qed
qed

section \<open>Synthetic keys\<close>

lemma parse_records_set:
  "c \<in> set (parse_records S ls) \<longleftrightarrow>
   (\<exists>i < length ls. is_marker (ls ! i) \<and>
      c = record_of S (int i + 1) (ls ! i) (takeWhile (\<lambda>x. \<not> is_marker x) (drop (Suc i) ls)))"
  by (simp add: parse_records_def records_from_set add.commute)

lemma parse_records_marker:
  assumes "c \<in> set (parse_records S ls)"
  shows "1 \<le> StartLine c \<and> StartLine c \<le> int (length ls) \<and> is_marker (marker_line ls c)
     \<and> Destination c = destination_of (marker_line ls c) (StartLine c)
     \<and> c = record_of S (StartLine c) (marker_line ls c)
             (takeWhile (\<lambda>x. \<not> is_marker x) (drop (nat (StartLine c)) ls))"
proof -
  obtain i where i: "i < length ls" "is_marker (ls ! i)"
    "c = record_of S (int i + 1) (ls ! i) (takeWhile (\<lambda>x. \<not> is_marker x) (drop (Suc i) ls))"
    using assms parse_records_set by blast
  have s: "StartLine c = int i + 1" by (simp add: i(3) record_of_def)
  have n: "nat (StartLine c - 1) = i" by (simp add: s)
  have m: "marker_line ls c = ls ! i" by (simp add: marker_line_def n)
  have d: "Destination c = destination_of (ls ! i) (int i + 1)" by (simp add: i(3) record_of_def)
  have "1 \<le> StartLine c" "StartLine c \<le> int (length ls)"
    using i(1) by (simp_all add: s)
  moreover have "is_marker (marker_line ls c)"
    using i(2) by (simp add: m)
  moreover have "Destination c = destination_of (marker_line ls c) (StartLine c)"
    using d by (simp add: m s)
  moreover have "c = record_of S (StartLine c) (marker_line ls c)
             (takeWhile (\<lambda>x. \<not> is_marker x) (drop (nat (StartLine c)) ls))"
  proof -
    have "record_of S (StartLine c) (marker_line ls c)
             (takeWhile (\<lambda>x. \<not> is_marker x) (drop (nat (StartLine c)) ls))
        = record_of S (int i + 1) (ls ! i) (takeWhile (\<lambda>x. \<not> is_marker x) (drop (Suc i) ls))"
    proof -
      have "nat (int i + 1) = Suc i" by linarith
      then show ?thesis by (simp add: m s)
    qed
    then show ?thesis using i(3) by simp
  qed
  ultimately show ?thesis by blast
qed

text \<open>
  Every chunk of a table loaded from empty carries the digest of its own raw content:
  two such tables with the same keys and raw contents have the same digests.
\<close>

lemma loaded_digest:
  assumes "fs p = Scan ls err"
    and "Chunks (snd (LoadDataTable S fs (NewDataTable p))) k = Some c"
  shows "Hash c = hashChunk S (Data c)"
proof -
  have "store_all Map.empty (parse_records S ls) k = Some c"
    using assms LoadDataTable_new_refines by metis
  then have "c \<in> set (parse_records S ls)"
    using store_all_key by blast
  then obtain n l b where "c = record_of S n l b"
    using parse_records_marker by blast
  then show ?thesis
    by (simp add: record_of_def)
qed

text \<open>
  Claim C5, as stated, fails: a marker line can carry the text of a synthetic key as
  its second token. In the input below the first record (line 1, no second token) and
  the second record (line 2, second token \<open>unknown_1\<close>) get the same key, and the table
  keeps only the second.
\<close>

theorem synthetic_key_collision_counterexample:
  "length (Fields ''Destination:'') < 2
   \<and> 2 \<le> length (Fields ''Destination: unknown_1'')
   \<and> destination_of ''Destination:'' 1 = ''unknown_1''
   \<and> destination_of ''Destination: unknown_1'' 2 = ''unknown_1''
   \<and> Chunks (snd (LoadDataTable (\<lambda>d. d)
         (\<lambda>p. Scan [''Destination:'', ''Destination: unknown_1''] False) (NewDataTable ''f'')))
       = [''unknown_1'' \<mapsto>
            \<lparr>StartLine = 2, EndLine = 2, Hash = ''44657374696e6174696f6e3a20756e6b6e6f776e5f31'',
             Data = ''Destination: unknown_1'', Destination = ''unknown_1''\<rparr>]"
  by (simp add: load_eval)

text \<open>
  Claim C5, amended. The table loaded from the lines \<open>ls\<close> stores the records of
  \<open>ls\<close> in order. A record whose marker line has fewer than two fields has the key
  \<open>unknown_\<close> followed by the decimal number of its first line, counted from 1. Another
  record of the input has this key only when its marker line has a second field that
  is this very text; in particular no other record with a synthetic key has it.
\<close>

theorem synthetic_keys:
  assumes "c \<in> set (parse_records S ls)" and "length (Fields (marker_line ls c)) < 2"
  shows "Chunks (snd (LoadDataTable S (\<lambda>p. Scan ls err) (NewDataTable p)))
           = store_all Map.empty (parse_records S ls)
     \<and> 1 \<le> StartLine c \<and> StartLine c \<le> int (length ls) \<and> is_marker (marker_line ls c)
     \<and> Destination c = ''unknown_'' @ Sprintf_d (StartLine c)
     \<and> (\<forall>c' \<in> set (parse_records S ls). Destination c' = Destination c \<longrightarrow>
           c' = c \<or> (2 \<le> length (Fields (marker_line ls c'))
                     \<and> Fields (marker_line ls c') ! 1 = ''unknown_'' @ Sprintf_d (StartLine c)))"
proof -
  note c = parse_records_marker [OF assms(1)]
  have key: "Destination c = ''unknown_'' @ Sprintf_d (StartLine c)"
    using c assms(2) by (simp add: destination_of_def)
  have other: "c' = c \<or> (2 \<le> length (Fields (marker_line ls c'))
                     \<and> Fields (marker_line ls c') ! 1 = ''unknown_'' @ Sprintf_d (StartLine c))"
    if c': "c' \<in> set (parse_records S ls)" and e: "Destination c' = Destination c" for c'
  proof (cases "2 \<le> length (Fields (marker_line ls c'))")
    case True
    then have "Destination c' = Fields (marker_line ls c') ! 1"
      using parse_records_marker [OF c'] by (simp add: destination_of_def)
    then show ?thesis using True e key by simp
  next
    case False
    then have "Destination c' = ''unknown_'' @ Sprintf_d (StartLine c')"
      using parse_records_marker [OF c'] by (simp add: destination_of_def)
    then have "Sprintf_d (StartLine c') = Sprintf_d (StartLine c)"
      using e key by simp
    then have "StartLine c' = StartLine c" by (rule Sprintf_d_inj)
    then have "c' = c"
      using parse_records_marker [OF c'] c by (simp add: marker_line_def)
    then show ?thesis ..
  qed
  have "Chunks (snd (LoadDataTable S (\<lambda>p. Scan ls err) (NewDataTable p)))
           = store_all Map.empty (parse_records S ls)"
    by (rule LoadDataTable_new_refines) simp
  then show ?thesis
    using c key other by blast
qed

text \<open>
  The record of line 1 has no second field and gets the key \<open>unknown_1\<close>.
\<close>

theorem synthetic_keys_witness:
  "parse_records (\<lambda>d. d) [''Destination:'', ''Destination: b''] =
     [\<lparr>StartLine = 1, EndLine = 1, Hash = ''44657374696e6174696f6e3a'',
        Data = ''Destination:'', Destination = ''unknown_1''\<rparr>,
      \<lparr>StartLine = 2, EndLine = 2, Hash = ''44657374696e6174696f6e3a2062'',
        Data = ''Destination: b'', Destination = ''b''\<rparr>]
   \<and> length (Fields (marker_line [''Destination:'', ''Destination: b'']
        \<lparr>StartLine = 1, EndLine = 1, Hash = ''44657374696e6174696f6e3a'',
        Data = ''Destination:'', Destination = ''unknown_1''\<rparr>)) < 2
   \<and> Destination \<lparr>StartLine = 1, EndLine = 1, Hash = ''44657374696e6174696f6e3a'',
        Data = ''Destination:'', Destination = ''unknown_1''\<rparr> = ''unknown_'' @ Sprintf_d 1"
proof -
  define c where "c = \<lparr>StartLine = 1, EndLine = 1, Hash = ''44657374696e6174696f6e3a'',
        Data = ''Destination:'', Destination = ''unknown_1''\<rparr>"
  have p: "parse_records (\<lambda>d. d) [''Destination:'', ''Destination: b''] =
     [c, \<lparr>StartLine = 2, EndLine = 2, Hash = ''44657374696e6174696f6e3a2062'',
        Data = ''Destination: b'', Destination = ''b''\<rparr>]"
    by (simp add: parse_records_def is_marker_def record_of_def load_eval c_def)
  have h1: "c \<in> set (parse_records (\<lambda>d. d) [''Destination:'', ''Destination: b''])"
    by (simp add: p)
  have h2: "length (Fields (marker_line [''Destination:'', ''Destination: b''] c)) < 2"
    by (simp add: marker_line_def c_def Fields_def asciiSpace_def)
  have "Destination c = ''unknown_'' @ Sprintf_d (StartLine c)"
    using synthetic_keys [OF h1 h2] by blast
  then show ?thesis
    using p h2 by (simp add: c_def)
qed

section \<open>Parsing the text of the records again\<close>

lemma Join_terminated:
  "xs \<noteq> [] \<Longrightarrow> Join xs sep @ sep = concat (map (\<lambda>x. x @ sep) xs)"
  by (induction xs sep rule: Join.induct) simp_all

lemma records_text_from:
  "records_text (records_from S n ls) =
     concat (map (\<lambda>x. x @ [CHR 0x0A]) (dropWhile (\<lambda>x. \<not> is_marker x) ls))"
proof (induction S n ls rule: records_from.induct)
  case (1 S n)
  show ?case by (simp add: records_text_def)
next
  case (2 S n l ls)
  show ?case
  proof (cases "is_marker l")
    case True
    have d: "Data (record_of S n l (takeWhile (\<lambda>x. \<not> is_marker x) ls)) @ [CHR 0x0A]
        = concat (map (\<lambda>x. x @ [CHR 0x0A]) (l # takeWhile (\<lambda>x. \<not> is_marker x) ls))"
      unfolding record_of_def by (simp only: Chunk.simps) (rule Join_terminated, simp)
    have "records_text (records_from S n (l # ls)) =
        concat (map (\<lambda>x. x @ [CHR 0x0A]) (l # takeWhile (\<lambda>x. \<not> is_marker x) ls))
        @ concat (map (\<lambda>x. x @ [CHR 0x0A]) (dropWhile (\<lambda>x. \<not> is_marker x) (dropWhile (\<lambda>x. \<not> is_marker x) ls)))"
      using "2.IH"(1) [OF True] True d by (simp add: records_text_def)
    also have "\<dots> = concat (map (\<lambda>x. x @ [CHR 0x0A]) (l # ls))"
    proof -
      have "concat (map (\<lambda>x. x @ [CHR 0x0A]) (takeWhile (\<lambda>x. \<not> is_marker x) ls))
          @ concat (map (\<lambda>x. x @ [CHR 0x0A]) (dropWhile (\<lambda>x. \<not> is_marker x) ls))
          = concat (map (\<lambda>x. x @ [CHR 0x0A]) ls)"
        by (metis concat_append map_append takeWhile_dropWhile_id)
      then show ?thesis
        by (simp add: dropWhile_idem)
    qed
    finally show ?thesis
      using True by simp
  next
    case False
    then show ?thesis using "2.IH"(2) by simp
  qed
qed

lemma split_lines_line:
  "CHR 0x0A \<notin> set l \<Longrightarrow> split_lines cur (l @ CHR 0x0A # s) = (cur @ l) # split_lines [] s"
  by (induction l arbitrary: cur) auto

lemma split_lines_terminated:
  "\<forall>l \<in> set ls. CHR 0x0A \<notin> set l \<Longrightarrow>
   split_lines [] (concat (map (\<lambda>x. x @ [CHR 0x0A]) ls)) = ls"
  by (induction ls) (simp_all add: split_lines_line)

lemma scan_text_terminated:
  assumes "\<forall>l \<in> set ls. CHR 0x0A \<notin> set l \<and> dropCR l = l \<and> length l < MaxScanTokenSize"
  shows "scan_text (concat (map (\<lambda>x. x @ [CHR 0x0A]) ls)) = Scan ls False"
proof -
  have s: "split_lines [] (concat (map (\<lambda>x. x @ [CHR 0x0A]) ls)) = ls"
    using assms by (simp add: split_lines_terminated)
  have t: "takeWhile (\<lambda>l. length l < MaxScanTokenSize) ls = ls"
    using assms by (simp add: takeWhile_eq_all_conv)
  have m: "map dropCR ls = ls"
    using assms by (simp add: map_idI)
  show ?thesis
    by (simp add: scan_text_def s t m)
qed

lemma records_from_preamble:
  "records_from S n ls =
     records_from S (n + int (length (takeWhile (\<lambda>x. \<not> is_marker x) ls)))
       (dropWhile (\<lambda>x. \<not> is_marker x) ls)"
proof (induction ls arbitrary: n)
  case Nil
  show ?case by simp
next
  case (Cons l ls)
  show ?case
  proof (cases "is_marker l")
    case True
    then show ?thesis by simp
  next
    case False
    then show ?thesis
      using Cons.IH [of "n + 1"] by (simp add: add.assoc)
  qed
qed

lemma content_record_of:
  "2 \<le> length (Fields l) \<Longrightarrow> content (record_of S n l body) = content (record_of S n' l body)"
  by (simp add: content_def record_of_def destination_of_def)

lemma records_from_content:
  "\<forall>l \<in> set ls. is_marker l \<longrightarrow> 2 \<le> length (Fields l) \<Longrightarrow>
   map content (records_from S n ls) = map content (records_from S n' ls)"
proof (induction S n ls arbitrary: n' rule: records_from.induct)
  case (1 S n)
  show ?case by simp
next
  case (2 S n l ls)
  show ?case
  proof (cases "is_marker l")
    case True
    have w: "\<forall>l \<in> set (dropWhile (\<lambda>x. \<not> is_marker x) ls). is_marker l \<longrightarrow> 2 \<le> length (Fields l)"
      using "2.prems" by (auto dest: set_dropWhileD)
    have "2 \<le> length (Fields l)" using "2.prems" True by simp
    then show ?thesis
      using True "2.IH"(1) [OF True w] content_record_of by simp
  next
    case False
    then show ?thesis
      using "2.IH"(2) [of "n' + 1"] "2.prems" by simp
  qed
qed

lemma store_all_content:
  "map content xs = map content ys \<Longrightarrow>
   map_option content (m k) = map_option content (m' k) \<Longrightarrow>
   map_option content (store_all m xs k) = map_option content (store_all m' ys k)"
proof (induction xs arbitrary: ys m m')
  case Nil
  then show ?case by (simp add: store_all_def)
next
  case (Cons x xs)
  obtain y ys' where ys: "ys = y # ys'" "content x = content y" "map content xs = map content ys'"
    using Cons.prems(1) by (cases ys) auto
  have d: "Destination x = Destination y"
    using ys(2) by (simp add: content_def)
  have "map_option content ((m(Destination x \<mapsto> x)) k) = map_option content ((m'(Destination y \<mapsto> y)) k)"
    using Cons.prems(2) ys(2) d by simp
  then have "map_option content (store_all (m(Destination x \<mapsto> x)) xs k)
      = map_option content (store_all (m'(Destination y \<mapsto> y)) ys' k)"
    using Cons.IH [OF ys(3)] by blast
  then show ?case
    by (simp add: ys(1) store_all_def)
qed


text \<open>
  Claim C6, as stated, fails: the raw content of a record has no newline after its
  last line, so a record that ends with an empty line loses that line when its raw
  content is scanned again. The file below has one record of two lines (its marker
  line is well-formed); the text made of its raw content scans as one line, and the
  record parsed from it ends at line 1, not 2, with another raw content and digest.
\<close>

theorem reparse_raw_contents_counterexample:
  "scan_text ''Destination: a\<newline>\<newline>'' = Scan [''Destination: a'', ''''] False
   \<and> 2 \<le> length (Fields ''Destination: a'')
   \<and> parse_records (\<lambda>d. d) [''Destination: a'', ''''] =
        [\<lparr>StartLine = 1, EndLine = 2, Hash = ''44657374696e6174696f6e3a20610a'',
          Data = ''Destination: a\<newline>'', Destination = ''a''\<rparr>]
   \<and> scan_text (concat (map Data (parse_records (\<lambda>d. d) [''Destination: a'', ''''])))
        = Scan [''Destination: a''] False
   \<and> parse_records (\<lambda>d. d) [''Destination: a''] =
        [\<lparr>StartLine = 1, EndLine = 1, Hash = ''44657374696e6174696f6e3a2061'',
          Data = ''Destination: a'', Destination = ''a''\<rparr>]"
  by (simp add: scan_text_def MaxScanTokenSize_def dropCR_def parse_records_def is_marker_def
      record_of_def load_eval)

text \<open>
  Claim C6, amended. Let every marker line of the input \<open>ls\<close> have at least two
  fields, and let the lines be lines a scanner can yield again: no newline inside, no
  carriage return at the end, shorter than the scanner's limit. Write the raw content
  of each parsed record, in order, each followed by a newline. Scanning that text
  succeeds, and parsing its lines gives records with the keys, raw contents, digests
  and extents of the records of \<open>ls\<close>, in the same order; the tables loaded from the
  two inputs agree in these on every key.
\<close>

theorem reparse_records_text:
  assumes "\<forall>l \<in> set ls. is_marker l \<longrightarrow> 2 \<le> length (Fields l)"
    and "\<forall>l \<in> set ls. CHR 0x0A \<notin> set l \<and> dropCR l = l \<and> length l < MaxScanTokenSize"
  shows "\<exists>ls2. scan_text (records_text (parse_records S ls)) = Scan ls2 False
     \<and> map content (parse_records S ls2) = map content (parse_records S ls)
     \<and> (\<forall>k. map_option content
               (Chunks (snd (LoadDataTable S (\<lambda>p. scan_text (records_text (parse_records S ls)))
                    (NewDataTable p))) k)
            = map_option content
               (Chunks (snd (LoadDataTable S (\<lambda>p. Scan ls False) (NewDataTable p))) k))"
proof -
  define ls2 where "ls2 = dropWhile (\<lambda>x. \<not> is_marker x) ls"
  have incl: "set ls2 \<subseteq> set ls"
    unfolding ls2_def by (auto dest: set_dropWhileD)
  have tx: "records_text (parse_records S ls) = concat (map (\<lambda>x. x @ [CHR 0x0A]) ls2)"
    by (simp add: parse_records_def records_text_from ls2_def)
  have sc: "scan_text (records_text (parse_records S ls)) = Scan ls2 False"
    unfolding tx using assms(2) incl by (intro scan_text_terminated) blast
  have wf: "\<forall>l \<in> set ls2. is_marker l \<longrightarrow> 2 \<le> length (Fields l)"
    using assms(1) incl by blast
  have "parse_records S ls =
      records_from S (1 + int (length (takeWhile (\<lambda>x. \<not> is_marker x) ls))) ls2"
    unfolding parse_records_def ls2_def by (rule records_from_preamble)
  then have co: "map content (parse_records S ls2) = map content (parse_records S ls)"
    using records_from_content [OF wf] by (simp add: parse_records_def)
  have "map_option content
               (Chunks (snd (LoadDataTable S (\<lambda>p. scan_text (records_text (parse_records S ls)))
                    (NewDataTable p))) k)
            = map_option content
               (Chunks (snd (LoadDataTable S (\<lambda>p. Scan ls False) (NewDataTable p))) k)" for k
  proof -
    have a: "Chunks (snd (LoadDataTable S (\<lambda>p. scan_text (records_text (parse_records S ls)))
                    (NewDataTable p))) = store_all Map.empty (parse_records S ls2)"
      by (rule LoadDataTable_new_refines) (rule sc)
    have b: "Chunks (snd (LoadDataTable S (\<lambda>p. Scan ls False) (NewDataTable p)))
        = store_all Map.empty (parse_records S ls)"
      by (rule LoadDataTable_new_refines [where err = False]) simp
    show ?thesis
      unfolding a b by (rule store_all_content [OF co]) simp
  qed
  then show ?thesis
    using sc co by blast
qed

text \<open>
  An input with a line before the first marker, a record with an empty last line and
  a last record followed by an empty line.
\<close>

theorem reparse_records_text_witness:
  "scan_text (records_text (parse_records (\<lambda>d. d)
       [''junk'', ''Destination: a'', '' x'', '''', ''Destination: b'', '''']))
     = Scan [''Destination: a'', '' x'', '''', ''Destination: b'', ''''] False
   \<and> map content (parse_records (\<lambda>d. d) [''Destination: a'', '' x'', '''', ''Destination: b'', ''''])
     = map content (parse_records (\<lambda>d. d)
         [''junk'', ''Destination: a'', '' x'', '''', ''Destination: b'', ''''])"
proof -
  define ls where "ls = [''junk'', ''Destination: a'', '' x'', '''', ''Destination: b'', '''']"
  have h1: "\<forall>l \<in> set ls. is_marker l \<longrightarrow> 2 \<le> length (Fields l)"
    by (simp add: ls_def is_marker_def HasPrefix_def Fields_def asciiSpace_def)
  have h2: "\<forall>l \<in> set ls. CHR 0x0A \<notin> set l \<and> dropCR l = l \<and> length l < MaxScanTokenSize"
    by (simp add: ls_def dropCR_def MaxScanTokenSize_def)
  obtain ls2 where r: "scan_text (records_text (parse_records (\<lambda>d. d) ls)) = Scan ls2 False"
    "map content (parse_records (\<lambda>d. d) ls2) = map content (parse_records (\<lambda>d. d) ls)"
    using reparse_records_text [OF h1 h2, of "\<lambda>d. d"] by blast
  have "scan_text (records_text (parse_records (\<lambda>d. d) ls))
      = Scan [''Destination: a'', '' x'', '''', ''Destination: b'', ''''] False"
    by (simp add: ls_def scan_text_def MaxScanTokenSize_def dropCR_def parse_records_def
        is_marker_def record_of_def records_text_def load_eval)
  then have "ls2 = [''Destination: a'', '' x'', '''', ''Destination: b'', '''']"
    using r(1) by simp
  then show ?thesis
    using r unfolding ls_def by simp
qed

section \<open>Debouncing a burst of signals\<close>

lemma filter_upt_one:
  "t < n \<Longrightarrow> P t \<Longrightarrow> \<forall>u < n. P u \<longrightarrow> u = t \<Longrightarrow> filter P [0..<n] = [t]"
proof (induction n)
  case 0
  then show ?case by simp
next
  case (Suc n)
  show ?case
  proof (cases "t = n")
    case True
    have "\<not> P u" if "u < n" for u
    proof
      assume "P u"
      moreover have "u < Suc n" using that by simp
      ultimately have "u = t" using Suc.prems(3) by blast
      then show False using that True by simp
    qed
    then have "filter P [0..<n] = []"
      by (simp add: filter_empty_conv)
    then show ?thesis using Suc.prems(2) True by simp
  next
    case False
    then have lt: "t < n" using Suc.prems(1) by simp
    have "\<not> P n"
    proof
      assume "P n"
      then have "n = t" using Suc.prems(3) by blast
      then show False using False by simp
    qed
    moreover have "\<forall>u < n. P u \<longrightarrow> u = t"
      using Suc.prems(3) by (meson less_SucI)
    then have "filter P [0..<n] = [t]"
      using Suc.IH lt Suc.prems(2) by blast
    ultimately show ?thesis by simp
  qed
qed

lemma quiet_tidy: "quiet w \<Longrightarrow> tidy w"
  unfolding quiet_def tidy_def by blast

lemma tidy_cases: "tidy w \<Longrightarrow> quiet w \<or> (\<exists>r. armed w r)"
proof (cases "quiet w")
  case True
  then show ?thesis ..
next
  case False
  assume t: "tidy w"
  from False obtain u where u: "u < length (timers w)" "pending (timers w ! u)"
    unfolding quiet_def by blast
  then have "timer (fw w) = Some u"
    using t unfolding tidy_def by blast
  then have "armed w (runs_at (timers w ! u))"
    unfolding armed_def using t u by blast
  then show ?thesis by blast
qed

lemma due_none:
  assumes "\<And>t. t < length (timers w) \<Longrightarrow> \<not> (pending (timers w ! t) \<and> runs_at (timers w ! t) \<le> now)"
  shows "advance now w = w"
proof -
  have "filter (\<lambda>t. pending (timers w ! t) \<and> runs_at (timers w ! t) \<le> now) [0..<length (timers w)] = []"
    unfolding filter_empty_conv using assms by simp
  then show ?thesis
    unfolding advance_def due_def by simp
qed

lemma advance_quiet: "quiet w \<Longrightarrow> advance now w = w"
  by (rule due_none) (simp add: quiet_def)

lemma advance_early: "armed w r \<Longrightarrow> now < r \<Longrightarrow> advance now w = w"
proof (rule due_none)
  fix t
  assume a: "armed w r" and n: "now < r" and t: "t < length (timers w)"
  show "\<not> (pending (timers w ! t) \<and> runs_at (timers w ! t) \<le> now)"
  proof
    assume p: "pending (timers w ! t) \<and> runs_at (timers w ! t) \<le> now"
    obtain u where u: "timer (fw w) = Some u" "runs_at (timers w ! u) = r" and ti: "tidy w"
      using a unfolding armed_def by blast
    have "timer (fw w) = Some t"
      using ti t p unfolding tidy_def by blast
    then have "u = t" using u(1) by simp
    then show False using u(2) p n by simp
  qed
qed


lemma run_timer_facts:
  "fw (run_timer t w) = (fw w)\<lparr>lastEvent := runs_at (timers w ! t)\<rparr>"
  "onChangeCalls (run_timer t w) = onChangeCalls w @ [runs_at (timers w ! t)]"
  "timers (run_timer t w) = (timers w)[t := (timers w ! t)\<lparr>pending := False\<rparr>]"
  by (simp_all add: run_timer_def timer_func_def)

lemma advance_late:
  assumes "armed w r" and "r \<le> now"
  shows "\<exists>t. timer (fw w) = Some t \<and> runs_at (timers w ! t) = r \<and> advance now w = run_timer t w"
proof -
  obtain t where t: "timer (fw w) = Some t" "t < length (timers w)" "pending (timers w ! t)"
    "runs_at (timers w ! t) = r" and ti: "tidy w"
    using assms(1) unfolding armed_def by blast
  have "filter (\<lambda>t. pending (timers w ! t) \<and> runs_at (timers w ! t) \<le> now) [0..<length (timers w)] = [t]"
  proof (rule filter_upt_one)
    show "t < length (timers w)" by (rule t(2))
    show "pending (timers w ! t) \<and> runs_at (timers w ! t) \<le> now"
      using t(3,4) assms(2) by simp
    show "\<forall>u<length (timers w). pending (timers w ! u) \<and> runs_at (timers w ! u) \<le> now \<longrightarrow> u = t"
    proof (intro allI impI)
      fix u assume "u < length (timers w)" "pending (timers w ! u) \<and> runs_at (timers w ! u) \<le> now"
      then have "timer (fw w) = Some u" using ti unfolding tidy_def by blast
      then show "u = t" using t(1) by simp
    qed
  qed
  then have "advance now w = run_timer t w"
    unfolding advance_def due_def by simp
  then show ?thesis using t(1,4) by blast
qed

lemma run_timer_quiet:
  assumes "tidy w" and "timer (fw w) = Some t"
  shows "quiet (run_timer t w)"
  unfolding quiet_def
proof (intro allI impI)
  fix u assume u: "u < length (timers (run_timer t w))"
  then have ul: "u < length (timers w)" by (simp add: run_timer_facts)
  show "\<not> pending (timers (run_timer t w) ! u)"
  proof (cases "u = t")
    case True
    then show ?thesis using ul by (simp add: run_timer_facts)
  next
    case False
    have "\<not> pending (timers w ! u)"
    proof
      assume "pending (timers w ! u)"
      then have "timer (fw w) = Some u" using assms(1) ul unfolding tidy_def by blast
      then show False using assms(2) False by simp
    qed
    then show ?thesis using False by (simp add: run_timer_facts)
  qed
qed

lemma advance_fires:
  assumes "armed w r" and "r \<le> now"
  shows "quiet (advance now w)"
    and "onChangeCalls (advance now w) = onChangeCalls w @ [r]"
    and "filePath (fw (advance now w)) = filePath (fw w)"
    and "debounce (fw (advance now w)) = debounce (fw w)"
proof -
  obtain t where t: "timer (fw w) = Some t" "runs_at (timers w ! t) = r" "advance now w = run_timer t w"
    using advance_late [OF assms] by blast
  have ti: "tidy w" using assms(1) unfolding armed_def by blast
  show "quiet (advance now w)"
    unfolding t(3) using ti t(1) by (rule run_timer_quiet)
  show "onChangeCalls (advance now w) = onChangeCalls w @ [r]"
    unfolding t(3) by (simp add: run_timer_facts t(2))
  show "filePath (fw (advance now w)) = filePath (fw w)"
    unfolding t(3) by (simp add: run_timer_facts)
  show "debounce (fw (advance now w)) = debounce (fw w)"
    unfolding t(3) by (simp add: run_timer_facts)
qed

lemma advance_again:
  assumes "tidy w" and "t1 \<le> t2"
  shows "advance t2 (advance t1 w) = advance t2 w"
proof -
  consider "quiet w" | r where "armed w r" "t1 < r" | r where "armed w r" "r \<le> t1"
    using tidy_cases [OF assms(1)] by (meson not_less)
  then show ?thesis
  proof cases
    case 1
    then show ?thesis by (simp add: advance_quiet)
  next
    case 2
    then show ?thesis by (simp add: advance_early)
  next
    case 3
    obtain t where t: "advance t1 w = run_timer t w"
      using advance_late [OF 3] by blast
    have r2: "r \<le> t2" using 3(2) assms(2) by simp
    obtain t' where t': "timer (fw w) = Some t'" "advance t2 w = run_timer t' w"
      using advance_late [OF 3(1) r2] by blast
    obtain t'' where t'': "timer (fw w) = Some t''" "advance t1 w = run_timer t'' w"
      using advance_late [OF 3] by blast
    have e: "advance t2 w = advance t1 w"
      using t' t'' by simp
    have "quiet (advance t1 w)" using advance_fires(1) [OF 3] .
    then have "advance t2 (advance t1 w) = advance t1 w" by (rule advance_quiet)
    then show ?thesis using e by simp
  qed
qed

lemma advance_tidy: "tidy w \<Longrightarrow> tidy (advance now w)"
proof -
  assume ti: "tidy w"
  consider "quiet w" | r where "armed w r" "now < r" | r where "armed w r" "r \<le> now"
    using tidy_cases [OF ti] by (meson not_less)
  then show ?thesis
  proof cases
    case 1
    then show ?thesis using ti by (simp add: advance_quiet)
  next
    case 2
    then show ?thesis using ti by (simp add: advance_early)
  next
    case 3
    then show ?thesis using advance_fires(1) quiet_tidy by blast
  qed
qed

lemma advance_config:
  assumes "tidy w"
  shows "filePath (fw (advance now w)) = filePath (fw w)"
    and "debounce (fw (advance now w)) = debounce (fw w)"
proof -
  consider "quiet w" | r where "armed w r" "now < r" | r where "armed w r" "r \<le> now"
    using tidy_cases [OF assms] by (meson not_less)
  then have "filePath (fw (advance now w)) = filePath (fw w)
      \<and> debounce (fw (advance now w)) = debounce (fw w)"
  proof cases
    case 1
    then show ?thesis by (simp add: advance_quiet)
  next
    case 2
    then show ?thesis by (simp add: advance_early)
  next
    case 3
    then show ?thesis using advance_fires(3,4) by blast
  qed
  then show "filePath (fw (advance now w)) = filePath (fw w)"
    and "debounce (fw (advance now w)) = debounce (fw w)"
    by simp_all
qed


lemma Stop_facts:
  "fw (Stop t w) = fw w"
  "onChangeCalls (Stop t w) = onChangeCalls w"
  "length (timers (Stop t w)) = length (timers w)"
  by (simp_all add: Stop_def)

lemma Stop_quiet:
  assumes "tidy w" and "timer (fw w) = Some t"
  shows "quiet (Stop t w)"
  unfolding quiet_def
proof (intro allI impI)
  fix u assume "u < length (timers (Stop t w))"
  then have ul: "u < length (timers w)" by (simp add: Stop_facts)
  show "\<not> pending (timers (Stop t w) ! u)"
  proof (cases "u = t")
    case True
    then show ?thesis using ul by (simp add: Stop_def)
  next
    case False
    have "\<not> pending (timers w ! u)"
    proof
      assume "pending (timers w ! u)"
      then have "timer (fw w) = Some u" using assms(1) ul unfolding tidy_def by blast
      then show False using assms(2) False by simp
    qed
    then show ?thesis using False by (simp add: Stop_def)
  qed
qed

lemma arm_quiet:
  assumes "quiet w1"
  shows "armed (w1\<lparr>timers := timers w1 @ [\<lparr>deadline = e, runs_at = r, pending = True\<rparr>],
                   fw := (fw w1)\<lparr>timer := Some (length (timers w1))\<rparr>\<rparr>) r"
proof -
  define w2 where "w2 = w1\<lparr>timers := timers w1 @ [\<lparr>deadline = e, runs_at = r, pending = True\<rparr>],
                   fw := (fw w1)\<lparr>timer := Some (length (timers w1))\<rparr>\<rparr>"
  have tm: "timers w2 = timers w1 @ [\<lparr>deadline = e, runs_at = r, pending = True\<rparr>]"
    and pt: "timer (fw w2) = Some (length (timers w1))"
    by (simp_all add: w2_def)
  have "tidy w2"
    unfolding tidy_def
  proof (intro allI impI)
    fix u assume u: "u < length (timers w2)" and p: "pending (timers w2 ! u)"
    have "u = length (timers w1)"
    proof (rule ccontr)
      assume "u \<noteq> length (timers w1)"
      then have ul: "u < length (timers w1)" using u by (simp add: tm)
      then have "timers w2 ! u = timers w1 ! u" by (simp add: tm nth_append)
      then show False using p assms ul unfolding quiet_def by simp
    qed
    then show "timer (fw w2) = Some u" using pt by simp
  qed
  moreover have "length (timers w1) < length (timers w2)" by (simp add: tm)
  moreover have "pending (timers w2 ! length (timers w1))" "runs_at (timers w2 ! length (timers w1)) = r"
    by (simp_all add: tm)
  ultimately have "armed w2 r"
    unfolding armed_def using pt by blast
  then show ?thesis unfolding w2_def .
qed

lemma handleChange_arms:
  assumes "tidy w"
  shows "armed (handleChange now lag w)
           ((if debounce (fw w) \<le> 0 then now else now + debounce (fw w)) + lag)"
    and "onChangeCalls (handleChange now lag w) = onChangeCalls w"
    and "filePath (fw (handleChange now lag w)) = filePath (fw w)"
    and "debounce (fw (handleChange now lag w)) = debounce (fw w)"
proof -
  define w1 where "w1 = (case timer (fw w) of None \<Rightarrow> w | Some t \<Rightarrow> Stop t w)"
  define e where "e = (if debounce (fw w) \<le> 0 then now else now + debounce (fw w))"
  have f: "fw w1 = fw w" and c: "onChangeCalls w1 = onChangeCalls w"
    unfolding w1_def by (simp_all add: Stop_facts split: option.splits)
  have q: "quiet w1"
  proof (cases "timer (fw w)")
    case None
    have "quiet w"
      unfolding quiet_def using assms None unfolding tidy_def by fastforce
    then show ?thesis by (simp add: w1_def None)
  next
    case (Some t)
    then show ?thesis using Stop_quiet [OF assms Some] by (simp add: w1_def)
  qed
  have h: "handleChange now lag w =
      w1\<lparr>timers := timers w1 @ [\<lparr>deadline = e, runs_at = e + lag, pending = True\<rparr>],
         fw := (fw w1)\<lparr>timer := Some (length (timers w1))\<rparr>\<rparr>"
    unfolding handleChange_def AfterFunc_def w1_def [symmetric] Let_def e_def by (simp add: f)
  show "armed (handleChange now lag w)
           ((if debounce (fw w) \<le> 0 then now else now + debounce (fw w)) + lag)"
    unfolding h e_def [symmetric] using q by (rule arm_quiet)
  show "onChangeCalls (handleChange now lag w) = onChangeCalls w"
    unfolding h by (simp add: c)
  show "filePath (fw (handleChange now lag w)) = filePath (fw w)"
    unfolding h by (simp add: f)
  show "debounce (fw (handleChange now lag w)) = debounce (fw w)"
    unfolding h by (simp add: f)
qed


lemma watch_event_irrelevant:
  assumes "tidy w" and "\<not> relevant (filePath (fw w)) s"
  shows "watch_event w s = advance (handled s) w"
  using assms(2) advance_config(1) [OF assms(1), of "handled s"]
  unfolding watch_event_def relevant_def Let_def by auto

lemma watch_event_relevant:
  assumes "tidy w" and "relevant (filePath (fw w)) s"
  shows "watch_event w s = handleChange (handled s) (timer_lag s) (advance (handled s) w)"
  using assms(2) advance_config(1) [OF assms(1), of "handled s"]
  unfolding watch_event_def relevant_def Let_def by auto

lemma watch_irrelevant:
  assumes "tidy w" and "filePath (fw w) = p"
    and "\<forall>s \<in> set ss. \<not> relevant p s \<and> handled s \<le> T"
  shows "advance T (watch w ss) = advance T w"
  using assms
proof (induction ss arbitrary: w)
  case Nil
  show ?case by (simp add: watch_def)
next
  case (Cons s ss)
  have e: "watch_event w s = advance (handled s) w"
    using Cons.prems by (intro watch_event_irrelevant) simp_all
  have t: "tidy (advance (handled s) w)"
    using Cons.prems(1) by (rule advance_tidy)
  have p: "filePath (fw (advance (handled s) w)) = p"
    using advance_config(1) [OF Cons.prems(1)] Cons.prems(2) by simp
  have r: "\<forall>s \<in> set ss. \<not> relevant p s \<and> handled s \<le> T"
    using Cons.prems(3) by simp
  have "advance T (watch w (s # ss)) = advance T (watch (advance (handled s) w) ss)"
    by (simp add: watch_def e)
  also have "\<dots> = advance T (advance (handled s) w)"
    using Cons.IH [OF t p r] .
  also have "\<dots> = advance T w"
    using Cons.prems(1,3) by (intro advance_again) simp_all
  finally show ?case .
qed

lemma armed_result:
  assumes "armed w r"
  shows "onChangeCalls (advance T w) = onChangeCalls w @ (if r \<le> T then [r] else [])"
proof (cases "r \<le> T")
  case True
  then show ?thesis using advance_fires(2) [OF assms] by simp
next
  case False
  then show ?thesis using advance_early [OF assms, of T] by simp
qed

lemma fire_time_ge: "0 \<le> timer_lag s \<Longrightarrow> handled s + d \<le> fire_time d s"
  by (simp add: fire_time_def)

lemma burst_tail:
  assumes "armed w r" and "filePath (fw w) = p" and "debounce (fw w) = d"
    and "h0 + d \<le> r"
    and "sorted (map handled ss)"
    and "\<forall>s \<in> set ss. 0 \<le> timer_lag s \<and> handled s \<le> T"
    and "spaced d (h0 # map handled (filter (relevant p) ss))"
  shows "onChangeCalls (advance T (watch w ss)) =
           onChangeCalls w @
           (if (if filter (relevant p) ss = [] then r else fire_time d (last (filter (relevant p) ss))) \<le> T
            then [if filter (relevant p) ss = [] then r else fire_time d (last (filter (relevant p) ss))]
            else [])"
  using assms
proof (induction ss arbitrary: w r h0)
  case Nil
  then show ?case using armed_result [of w r T] by (simp add: watch_def)
next
  case (Cons s ss)
  have ti: "tidy w" using Cons.prems(1) unfolding armed_def by blast
  have so: "sorted (map handled ss)" using Cons.prems(5) by simp
  have bd: "\<forall>s \<in> set ss. 0 \<le> timer_lag s \<and> handled s \<le> T" using Cons.prems(6) by simp
  show ?case
  proof (cases "relevant p s")
    case True
    have sp: "handled s - h0 < d" "spaced d (handled s # map handled (filter (relevant p) ss))"
      using Cons.prems(7) True by simp_all
    have early: "handled s < r" using sp(1) Cons.prems(4) by simp
    have a: "advance (handled s) w = w"
      using Cons.prems(1) early by (rule advance_early)
    define w1 where "w1 = handleChange (handled s) (timer_lag s) w"
    have e: "watch_event w s = w1"
      unfolding w1_def using watch_event_relevant [OF ti, of s] True Cons.prems(2) a by simp
    have ar: "armed w1 (fire_time d s)"
    proof -
      have "(if debounce (fw w) \<le> 0 then handled s else handled s + debounce (fw w)) + timer_lag s
          = fire_time d s"
        unfolding fire_time_def Cons.prems(3) ..
      then show ?thesis
        unfolding w1_def using handleChange_arms(1) [OF ti, of "handled s" "timer_lag s"] by simp
    qed
    have c1: "onChangeCalls w1 = onChangeCalls w"
      and p1: "filePath (fw w1) = p" and d1: "debounce (fw w1) = d"
      unfolding w1_def using handleChange_arms(2,3,4) [OF ti] Cons.prems(2,3) by simp_all
    have ge: "handled s + d \<le> fire_time d s"
      using Cons.prems(6) by (intro fire_time_ge) simp
    have ih: "onChangeCalls (advance T (watch w1 ss)) =
           onChangeCalls w1 @
           (if (if filter (relevant p) ss = [] then fire_time d s
                else fire_time d (last (filter (relevant p) ss))) \<le> T
            then [if filter (relevant p) ss = [] then fire_time d s
                  else fire_time d (last (filter (relevant p) ss))]
            else [])"
      using Cons.IH [OF ar p1 d1 ge so bd sp(2)] .
    have w: "watch w (s # ss) = watch w1 ss"
      by (simp add: watch_def e)
    show ?thesis
      unfolding w ih c1 using True by simp
  next
    case False
    have fl: "filter (relevant p) (s # ss) = filter (relevant p) ss"
      using False by simp
    show ?thesis
    proof (cases "filter (relevant p) ss = []")
      case True
      have irr: "\<forall>x \<in> set (s # ss). \<not> relevant p x \<and> handled x \<le> T"
        using True False Cons.prems(6) by (auto simp: filter_empty_conv)
      have "advance T (watch w (s # ss)) = advance T w"
        using ti Cons.prems(2) irr by (rule watch_irrelevant)
      then show ?thesis
        unfolding fl using True armed_result [OF Cons.prems(1), of T] by simp
    next
      case ne: False
      define x where "x = hd (filter (relevant p) ss)"
      have xin: "x \<in> set ss"
      proof -
        have "x \<in> set (filter (relevant p) ss)"
          unfolding x_def using ne by (rule hd_in_set)
        then show ?thesis by simp
      qed
      have "handled x - h0 < d"
        using Cons.prems(7) ne unfolding fl x_def by (cases "filter (relevant p) ss") simp_all
      moreover have "handled s \<le> handled x"
        using Cons.prems(5) xin by simp
      ultimately have early: "handled s < r"
        using Cons.prems(4) by simp
      have a: "advance (handled s) w = w"
        using Cons.prems(1) early by (rule advance_early)
      have e: "watch_event w s = w"
        using watch_event_irrelevant [OF ti, of s] False Cons.prems(2) a by simp
      have w: "watch w (s # ss) = watch w ss"
        by (simp add: watch_def e)
      have sp: "spaced d (h0 # map handled (filter (relevant p) ss))"
        using Cons.prems(7) unfolding fl .
      show ?thesis
        unfolding w fl
        using Cons.IH [OF Cons.prems(1,2,3,4) so bd sp] .
    qed
  qed
qed


text \<open>
  The runtime runs every pending timer whose time has come, whether \<^verbatim>\<open>fw.timer\<close> points
  at it or not: only \<^verbatim>\<open>Stop\<close> keeps a timer from running.
\<close>

lemma advance_runs_every_pending_timer:
  "onChangeCalls (advance 1000
      \<lparr>fw = \<lparr>filePath = ''f'', debounce = 500, lastEvent = 0, timer = Some 1\<rparr>,
       timers = [\<lparr>deadline = 500, runs_at = 500, pending = True\<rparr>,
                 \<lparr>deadline = 600, runs_at = 600, pending = True\<rparr>],
       onChangeCalls = []\<rparr>) = [500, 600]
   \<and> onChangeCalls (advance 1000 (Stop 0
      \<lparr>fw = \<lparr>filePath = ''f'', debounce = 500, lastEvent = 0, timer = Some 1\<rparr>,
       timers = [\<lparr>deadline = 500, runs_at = 500, pending = True\<rparr>,
                 \<lparr>deadline = 600, runs_at = 600, pending = True\<rparr>],
       onChangeCalls = []\<rparr>)) = [600]"
  by code_simp

text \<open>Every state the watcher reaches from a new one is tidy.\<close>

lemma tidy_new: "tidy (NewFileWatcher path d)"
  by (simp add: tidy_def NewFileWatcher_def)

lemma tidy_watch_event: "tidy w \<Longrightarrow> tidy (watch_event w s)"
proof -
  assume ti: "tidy w"
  have ta: "tidy (advance (handled s) w)" using ti by (rule advance_tidy)
  show ?thesis
  proof (cases "relevant (filePath (fw w)) s")
    case True
    have "armed (watch_event w s)
        ((if debounce (fw (advance (handled s) w)) \<le> 0 then handled s
          else handled s + debounce (fw (advance (handled s) w))) + timer_lag s)"
      unfolding watch_event_relevant [OF ti True] using ta by (rule handleChange_arms(1))
    then show ?thesis unfolding armed_def by blast
  next
    case False
    show ?thesis unfolding watch_event_irrelevant [OF ti False] by (rule ta)
  qed
qed

lemma tidy_watch: "tidy w \<Longrightarrow> tidy (watch w ss)"
  unfolding watch_def by (induction ss arbitrary: w) (simp_all add: tidy_watch_event)

lemma watch_event_unfold:
  "watch_event w s =
     (if relevant (filePath (fw (advance (handled s) w))) s
      then handleChange (handled s) (timer_lag s) (advance (handled s) w)
      else advance (handled s) w)"
  unfolding watch_event_def relevant_def Let_def by auto

text \<open>
  Claim C3, as stated, fails: the watcher starts the interval when \<^verbatim>\<open>handleChange\<close>
  runs, not when the signal arrives. With an interval of 500 ms, the second signal
  below arrives 499.999 ms after the first and is handled 1.1 microseconds later, 100
  nanoseconds after the timer of the first has expired: \<^verbatim>\<open>onChange\<close> is called twice.
\<close>

theorem debounce_arrival_counterexample:
  "(499999000 :: int) - 0 < 500000000
   \<and> onChangeCalls (advance 2000000000 (watch (NewFileWatcher ''f'' 500000000)
       [\<lparr>arrived = 0, handled = 0, timer_lag = 0, event = \<lparr>Name = ''f'', Op = 2\<rparr>\<rparr>,
        \<lparr>arrived = 499999000, handled = 500000100, timer_lag = 0,
          event = \<lparr>Name = ''f'', Op = 2\<rparr>\<rparr>]))
     = [500000000, 1000000100]"
  by code_simp

text \<open>
  Claim C3, amended. Take a watcher in any state it can reach, and signals that the
  loop of \<^verbatim>\<open>watch\<close> handles in order, each no earlier than it arrived, of which at
  least one is a write or creation of the watched file. If each of these relevant
  signals is handled less than the debounce interval after the relevant one before,
  then once the clock has passed the handling of all signals, the burst has added
  exactly one call of \<^verbatim>\<open>onChange\<close> to the calls made before its first signal was
  handled: the run of the timer armed for the last relevant signal, if the clock has
  reached it, and none otherwise. That run is no earlier than the interval after the
  last relevant signal arrived.
\<close>

theorem debounce_burst_one_callback:
  assumes "tidy w"
    and "sorted (map handled ss)"
    and "\<forall>s \<in> set ss. arrived s \<le> handled s \<and> 0 \<le> timer_lag s \<and> handled s \<le> T"
    and "filter (relevant (filePath (fw w))) ss \<noteq> []"
    and "spaced (debounce (fw w)) (map handled (filter (relevant (filePath (fw w))) ss))"
  shows "onChangeCalls (advance T (watch w ss)) =
           onChangeCalls (advance (handled (hd (filter (relevant (filePath (fw w))) ss))) w) @
           (if fire_time (debounce (fw w)) (last (filter (relevant (filePath (fw w))) ss)) \<le> T
            then [fire_time (debounce (fw w)) (last (filter (relevant (filePath (fw w))) ss))]
            else [])
     \<and> arrived (last (filter (relevant (filePath (fw w))) ss)) + debounce (fw w)
         \<le> fire_time (debounce (fw w)) (last (filter (relevant (filePath (fw w))) ss))"
proof -
  define p where "p = filePath (fw w)"
  define d where "d = debounce (fw w)"
  have "\<exists>x \<in> set ss. relevant p x"
    using assms(4) unfolding p_def by (simp add: filter_empty_conv)
  then have "\<exists>ys x zs. ss = ys @ x # zs \<and> relevant p x \<and> (\<forall>y \<in> set ys. \<not> relevant p y)"
    by (rule split_list_first_prop)
  then obtain pre x rest where sp: "ss = pre @ x # rest" and rx: "relevant p x"
    and np: "\<forall>y \<in> set pre. \<not> relevant p y"
    by blast
  have fl: "filter (relevant p) ss = x # filter (relevant p) rest"
    using rx np by (simp add: sp filter_empty_conv)
  have so: "sorted (map handled pre)" "sorted (map handled rest)"
    "\<forall>y \<in> set pre. handled y \<le> handled x"
    using assms(2) unfolding sp by (auto simp: sorted_append)
  define wa where "wa = advance (handled x) w"
  have ta: "tidy wa" unfolding wa_def using assms(1) by (rule advance_tidy)
  have pa: "filePath (fw wa) = p" and da: "debounce (fw wa) = d"
    unfolding wa_def p_def d_def using advance_config [OF assms(1)] by simp_all
  have "advance (handled x) (watch w pre) = wa"
    unfolding wa_def using assms(1) p_def [symmetric] np so(3)
    by (intro watch_irrelevant) simp_all
  then have e: "watch_event (watch w pre) x = handleChange (handled x) (timer_lag x) wa"
    using rx pa by (simp add: watch_event_unfold)
  define w1 where "w1 = handleChange (handled x) (timer_lag x) wa"
  have w: "watch w ss = watch w1 rest"
    unfolding sp w1_def e [symmetric] by (simp add: watch_def)
  have ar: "armed w1 (fire_time d x)"
  proof -
    have "(if debounce (fw wa) \<le> 0 then handled x else handled x + debounce (fw wa)) + timer_lag x
        = fire_time d x"
      unfolding fire_time_def da ..
    then show ?thesis
      unfolding w1_def using handleChange_arms(1) [OF ta, of "handled x" "timer_lag x"] by simp
  qed
  have c1: "onChangeCalls w1 = onChangeCalls wa"
    and p1: "filePath (fw w1) = p" and d1: "debounce (fw w1) = d"
    unfolding w1_def using handleChange_arms(2,3,4) [OF ta] pa da by simp_all
  have bx: "arrived x \<le> handled x" "0 \<le> timer_lag x"
    using assms(3) by (simp_all add: sp)
  have ge: "handled x + d \<le> fire_time d x"
    using bx(2) by (rule fire_time_ge)
  have bd: "\<forall>s \<in> set rest. 0 \<le> timer_lag s \<and> handled s \<le> T"
    using assms(3) by (simp add: sp)
  have sc: "spaced d (handled x # map handled (filter (relevant p) rest))"
    using assms(5) unfolding p_def [symmetric] d_def [symmetric] fl by simp
  have tail: "onChangeCalls (advance T (watch w1 rest)) =
           onChangeCalls w1 @
           (if (if filter (relevant p) rest = [] then fire_time d x
                else fire_time d (last (filter (relevant p) rest))) \<le> T
            then [if filter (relevant p) rest = [] then fire_time d x
                  else fire_time d (last (filter (relevant p) rest))]
            else [])"
    using ar p1 d1 ge so(2) bd sc by (rule burst_tail)
  have la: "fire_time d (last (filter (relevant p) ss)) =
      (if filter (relevant p) rest = [] then fire_time d x
       else fire_time d (last (filter (relevant p) rest)))"
    by (simp add: fl)
  have first: "onChangeCalls (advance T (watch w ss)) =
           onChangeCalls (advance (handled (hd (filter (relevant p) ss))) w) @
           (if fire_time d (last (filter (relevant p) ss)) \<le> T
            then [fire_time d (last (filter (relevant p) ss))] else [])"
    unfolding w tail c1 la by (simp add: fl wa_def)
  define z where "z = last (filter (relevant p) ss)"
  have "z \<in> set (filter (relevant p) ss)"
    unfolding z_def using assms(4) p_def by (intro last_in_set) simp
  then have "z \<in> set ss" by simp
  then have "arrived z \<le> handled z" "0 \<le> timer_lag z"
    using assms(3) by simp_all
  then have "arrived z + d \<le> fire_time d z"
    using fire_time_ge [of z d] by simp
  then show ?thesis
    using first unfolding z_def p_def d_def by simp
qed

text \<open>
  A new watcher with an interval of 500. Two relevant signals are handled at 10 and
  450, with a signal for another operation between them; the timer of the second
  runs 2 after its deadline. The one call is at 952.
\<close>

theorem debounce_burst_one_callback_witness:
  "onChangeCalls (advance 2000 (watch (NewFileWatcher ''f'' 500)
       [\<lparr>arrived = 0, handled = 10, timer_lag = 3, event = \<lparr>Name = ''f'', Op = 2\<rparr>\<rparr>,
        \<lparr>arrived = 100, handled = 120, timer_lag = 0, event = \<lparr>Name = ''f'', Op = 16\<rparr>\<rparr>,
        \<lparr>arrived = 200, handled = 450, timer_lag = 2, event = \<lparr>Name = ''f'', Op = 1\<rparr>\<rparr>]))
     = [952]"
proof -
  define w where "w = NewFileWatcher ''f'' 500"
  define ss where "ss =
       [\<lparr>arrived = 0, handled = 10, timer_lag = 3, event = \<lparr>Name = ''f'', Op = 2\<rparr>\<rparr>,
        \<lparr>arrived = 100, handled = 120, timer_lag = 0, event = \<lparr>Name = ''f'', Op = 16\<rparr>\<rparr>,
        \<lparr>arrived = 200, handled = 450, timer_lag = 2, event = \<lparr>Name = ''f'', Op = 1\<rparr>\<rparr>]"
  have f: "filter (relevant (filePath (fw w))) ss =
       [\<lparr>arrived = 0, handled = 10, timer_lag = 3, event = \<lparr>Name = ''f'', Op = 2\<rparr>\<rparr>,
        \<lparr>arrived = 200, handled = 450, timer_lag = 2, event = \<lparr>Name = ''f'', Op = 1\<rparr>\<rparr>]"
    by (simp add: w_def ss_def NewFileWatcher_def relevant_def Write_def Create_def)
  have h1: "tidy w" unfolding w_def by (rule tidy_new)
  have h2: "sorted (map handled ss)" by (simp add: ss_def)
  have h3: "\<forall>s \<in> set ss. arrived s \<le> handled s \<and> 0 \<le> timer_lag s \<and> handled s \<le> 2000"
    by (simp add: ss_def)
  have h4: "filter (relevant (filePath (fw w))) ss \<noteq> []"
    unfolding f by simp
  have h5: "spaced (debounce (fw w)) (map handled (filter (relevant (filePath (fw w))) ss))"
    unfolding f by (simp add: w_def NewFileWatcher_def)
  have q: "onChangeCalls (advance 10 w) = []"
    using advance_quiet [of w 10] by (simp add: w_def quiet_def NewFileWatcher_def)
  have dw: "debounce (fw w) = 500"
    by (simp add: w_def NewFileWatcher_def)
  have "onChangeCalls (advance 2000 (watch w ss)) = [952]"
    using debounce_burst_one_callback [OF h1 h2 h3 h4 h5] unfolding f
    by (simp add: q dw fire_time_def)
  then show ?thesis
    unfolding w_def ss_def .
qed

end
